theory Spec2Isabelle
  imports Main "HOL-Library.Word"
begin

unbundle bit_operations_syntax

section \<open>Error values\<close>

text \<open>
  Go \<open>error\<close> values that the lock manager and the rollback manager build or pass on.
  \<open>ValidationError\<close> and \<open>FileSystemError\<close> are the constructors
  \<open>types.NewValidationError(operation, message, cause)\<close> and
  \<open>types.NewFileSystemError(operation, path, message, cause)\<close>; \<open>Wrapped p e\<close> is
  \<open>fmt.Errorf("<p>: %w", e)\<close>; \<open>ErrorList p es\<close> is \<open>fmt.Errorf("<p>: %v", es)\<close>.
\<close>

datatype error =
    ErrExist
  | ErrNotExist
  | ErrOther string
  | Wrapped string error
  | ErrorList string "error list"
  | DependencyConstraint string
  | ValidationError string string "error option"
  | FileSystemError string string string "error option"

fun digit_char :: "nat \<Rightarrow> char" where
  "digit_char n = (''0123456789'' ! (n mod 10))"

fun show_nat :: "nat \<Rightarrow> string" where
  "show_nat n = (if n < 10 then [digit_char n] else show_nat (n div 10) @ [digit_char n])"

declare show_nat.simps [simp del]

definition show_int :: "int \<Rightarrow> string" where
  "show_int i = (if i < 0 then CHR ''-'' # show_nat (nat (- i)) else show_nat (nat i))"

section \<open>Rollback manager\<close>

datatype RollbackType =
  RollbackRemoveWorktree | RollbackDeleteBranch | RollbackRemoveFiles | RollbackCleanupLinks

text \<open>
  A compensating action is a closure \<open>func() error\<close>: it acts on the outside world
  (type \<open>'w\<close>) and returns \<open>nil\<close> (\<open>None\<close>) or an error.
\<close>

type_synonym 'w action = "'w \<Rightarrow> error option \<times> 'w"

record 'w RollbackOperation =
  Type :: RollbackType
  Description :: string
  Action :: "'w action"
  Critical :: bool
  ID :: int
  DependsOn :: "int list"

text \<open>The two methods of \<open>git.Repository\<close> that the rollback closures call.\<close>

record 'w Repository =
  RemoveWorktree :: "string \<Rightarrow> bool \<Rightarrow> 'w action"
  DeleteBranch :: "string \<Rightarrow> bool \<Rightarrow> 'w action"

text \<open>The two functions of package \<open>os\<close> that the rollback closures call.\<close>

record 'w OS =
  RemoveAll :: "string \<Rightarrow> 'w action"
  Remove :: "string \<Rightarrow> 'w action"

record 'w RollbackManager =
  repo :: "'w Repository"
  operations :: "'w RollbackOperation list"
  dependencies :: "int \<rightharpoonup> int list"
  failFast :: bool
  failFastExplicitlySet :: bool
  lastError :: "error option"

definition NewRollbackManager :: "'w Repository \<Rightarrow> 'w RollbackManager" where
  "NewRollbackManager r =
     \<lparr> repo = r, operations = [], dependencies = Map.empty,
       failFast = True, failFastExplicitlySet = False, lastError = None \<rparr>"

text \<open>
  The four \<open>Add...Cleanup\<close> methods share one shape: the new operation gets the current
  length of the ledger as its ID, is appended, and the ID is returned.
\<close>

definition appendOperation ::
  "'w RollbackManager \<Rightarrow> RollbackType \<Rightarrow> string \<Rightarrow> 'w action \<Rightarrow> bool \<Rightarrow> int \<times> 'w RollbackManager" where
  "appendOperation rm ty descr act crit =
     (let id = int (length (operations rm));
          op = \<lparr> Type = ty, Description = descr, Action = act, Critical = crit,
                 ID = id, DependsOn = [] \<rparr>
      in (id, rm\<lparr>operations := operations rm @ [op]\<rparr>))"

definition AddWorktreeCleanup :: "'w RollbackManager \<Rightarrow> string \<Rightarrow> int \<times> 'w RollbackManager" where
  "AddWorktreeCleanup rm path =
     appendOperation rm RollbackRemoveWorktree (''Remove worktree at '' @ path)
       (RemoveWorktree (repo rm) path True) True"

definition AddBranchCleanup :: "'w RollbackManager \<Rightarrow> string \<Rightarrow> int \<times> 'w RollbackManager" where
  "AddBranchCleanup rm branch =
     appendOperation rm RollbackDeleteBranch (''Delete branch '' @ branch)
       (DeleteBranch (repo rm) branch True) False"

definition AddFileCleanup :: "'w OS \<Rightarrow> 'w RollbackManager \<Rightarrow> string \<Rightarrow> int \<times> 'w RollbackManager" where
  "AddFileCleanup os rm path =
     appendOperation rm RollbackRemoveFiles (''Remove files at '' @ path)
       (RemoveAll os path) True"

text \<open>The closure of \<open>AddLinkCleanup\<close>: remove each link, tolerate "not exist", stop at
  the first other error.\<close>

fun remove_links :: "'w OS \<Rightarrow> string list \<Rightarrow> 'w action" where
  "remove_links os [] w = (None, w)"
| "remove_links os (link # links) w =
     (case Remove os link w of
        (Some err, w') \<Rightarrow> if err \<noteq> ErrNotExist then (Some err, w') else remove_links os links w'
      | (None, w') \<Rightarrow> remove_links os links w')"

definition AddLinkCleanup :: "'w OS \<Rightarrow> 'w RollbackManager \<Rightarrow> string list \<Rightarrow> int \<times> 'w RollbackManager" where
  "AddLinkCleanup os rm links =
     appendOperation rm RollbackCleanupLinks
       (''Remove '' @ show_nat (length links) @ '' symbolic links'')
       (remove_links os links) False"

text \<open>
  \<open>AddDependency\<close>. Go's \<open>int\<close> is signed and only the upper bound of \<open>dependentID\<close> is
  tested, so a negative \<open>dependentID\<close> reaches \<open>rm.operations[dependentID]\<close> and panics
  (\<open>None\<close>). \<open>dependsOnID\<close> is only used as a map key and a list element.
\<close>

definition AddDependency :: "'w RollbackManager \<Rightarrow> int \<Rightarrow> int \<Rightarrow> 'w RollbackManager option" where
  "AddDependency rm dependentID dependsOnID =
     (if dependentID < int (length (operations rm)) then
        (if dependentID < 0 then None
         else
           let i = nat dependentID;
               op = operations rm ! i;
               ops' = (operations rm)[i := op\<lparr>DependsOn := DependsOn op @ [dependsOnID]\<rparr>];
               old = (case dependencies rm dependsOnID of None \<Rightarrow> [] | Some l \<Rightarrow> l)
           in Some (rm\<lparr>operations := ops',
                        dependencies := (dependencies rm)(dependsOnID \<mapsto> old @ [dependentID])\<rparr>))
      else Some rm)"

definition SetFailFast :: "'w RollbackManager \<Rightarrow> bool \<Rightarrow> 'w RollbackManager" where
  "SetFailFast rm ff = rm\<lparr>failFast := ff, failFastExplicitlySet := True\<rparr>"

definition GetLastError :: "'w RollbackManager \<Rightarrow> error option" where
  "GetLastError rm = lastError rm"

definition clearOperations :: "'w RollbackManager \<Rightarrow> 'w RollbackManager" where
  "clearOperations rm = rm\<lparr>operations := [], dependencies := Map.empty\<rparr>"

definition Clear :: "'w RollbackManager \<Rightarrow> 'w RollbackManager" where
  "Clear rm = clearOperations rm"

definition HasOperations :: "'w RollbackManager \<Rightarrow> bool" where
  "HasOperations rm = (operations rm \<noteq> [])"

definition shouldSkipOperation :: "'w RollbackOperation \<Rightarrow> int set \<Rightarrow> bool" where
  "shouldSkipOperation op failed = list_ex (\<lambda>depID. depID \<in> failed) (DependsOn op)"

subsection \<open>Execute\<close>

text \<open>
  The local variables of \<open>Execute\<close> (\<open>errors\<close>, \<open>executed\<close>, \<open>failed\<close>), the field
  \<open>rm.lastError\<close> it assigns, and the outside world the actions act on. The maps
  \<open>executed\<close> and \<open>failed\<close> only ever store \<open>true\<close>, so each is the set of its keys.
  \<open>invoked\<close> is the log of the calls \<open>op.Action()\<close> in the order they happen: the
  position of the operation in the ledger and what the call returned.
\<close>

record 'w exec_state =
  errors :: "error list"
  executed :: "int set"
  failed :: "int set"
  last_err :: "error option"
  world :: 'w
  invoked :: "(nat \<times> error option) list"

definition init_state :: "'w RollbackManager \<Rightarrow> 'w \<Rightarrow> 'w exec_state" where
  "init_state rm w =
     \<lparr> errors = [], executed = {}, failed = {}, last_err = lastError rm, world = w, invoked = [] \<rparr>"

text \<open>One call \<open>op.Action()\<close> of the operation at position \<open>i\<close>, logged.\<close>

definition call_action :: "'w RollbackOperation \<Rightarrow> nat \<Rightarrow> 'w exec_state \<Rightarrow> error option \<times> 'w exec_state" where
  "call_action op i st =
     (case Action op (world st) of
        (r, w') \<Rightarrow> (r, st\<lparr>world := w', invoked := invoked st @ [(i, r)]\<rparr>))"

text \<open>The bookkeeping of a failed and of a successful call, as the loops of \<open>Execute\<close> do it.\<close>

definition record_failure :: "'w RollbackOperation \<Rightarrow> error \<Rightarrow> 'w exec_state \<Rightarrow> 'w exec_state" where
  "record_failure op opError st =
     st\<lparr>errors := errors st @ [opError], failed := insert (ID op) (failed st),
        last_err := Some opError\<rparr>"

definition record_success :: "'w RollbackOperation \<Rightarrow> 'w exec_state \<Rightarrow> 'w exec_state" where
  "record_success op st = st\<lparr>executed := insert (ID op) (executed st)\<rparr>"

definition critical_failure :: "'w RollbackOperation \<Rightarrow> error \<Rightarrow> error" where
  "critical_failure op err =
     FileSystemError ''rollback-critical-failure'' []
       (''critical rollback operation failed: '' @ Description op) (Some err)"

text \<open>
  Phase 1: \<open>for i := len(rm.operations) - 1; i >= 0; i--\<close> over the critical operations.
  \<open>phase1 ops explicit n st\<close> runs the iterations \<open>i = n - 1, ..., 0\<close>. \<open>Inl\<close> is the
  early return of the explicit fail-fast mode.
\<close>

primrec phase1 ::
  "'w RollbackOperation list \<Rightarrow> bool \<Rightarrow> nat \<Rightarrow> 'w exec_state \<Rightarrow> (error \<times> 'w exec_state) + 'w exec_state" where
  "phase1 ops explicit 0 st = Inr st"
| "phase1 ops explicit (Suc i) st =
     (let op = ops ! i in
      if \<not> Critical op then phase1 ops explicit i st
      else if shouldSkipOperation op (failed st) then phase1 ops explicit i st
      else
        (case call_action op i st of
           (Some err, st1) \<Rightarrow>
             (let opError = Wrapped (Description op) err;
                  st2 = st1\<lparr>last_err := Some opError\<rparr>
              in if explicit then Inl (critical_failure op err, st2)
                 else phase1 ops explicit i
                        (st2\<lparr>failed := insert (ID op) (failed st2), errors := errors st2 @ [opError]\<rparr>))
         | (None, st1) \<Rightarrow> phase1 ops explicit i (record_success op st1)))"

text \<open>Phase 2: the same loop over the non-critical operations not yet executed.\<close>

primrec phase2 :: "'w RollbackOperation list \<Rightarrow> nat \<Rightarrow> 'w exec_state \<Rightarrow> 'w exec_state" where
  "phase2 ops 0 st = st"
| "phase2 ops (Suc i) st =
     (let op = ops ! i in
      if Critical op \<or> ID op \<in> executed st then phase2 ops i st
      else if shouldSkipOperation op (failed st) then phase2 ops i st
      else
        (case call_action op i st of
           (Some err, st1) \<Rightarrow> phase2 ops i (record_failure op (Wrapped (Description op) err) st1)
         | (None, st1) \<Rightarrow> phase2 ops i (record_success op st1)))"

text \<open>Dependency-aware mode: \<open>canExecute\<close> and one pass \<open>for _, i := range remaining\<close>,
  which threads \<open>progress\<close> and \<open>newRemaining\<close>.\<close>

definition canExecute :: "'w RollbackOperation \<Rightarrow> 'w exec_state \<Rightarrow> bool" where
  "canExecute op st = list_all (\<lambda>depID. depID \<in> executed st \<or> depID \<in> failed st) (DependsOn op)"

fun run_pass ::
  "'w RollbackOperation list \<Rightarrow> nat list \<Rightarrow> 'w exec_state \<Rightarrow> bool \<Rightarrow> nat list
     \<Rightarrow> 'w exec_state \<times> bool \<times> nat list" where
  "run_pass ops [] st progress newRemaining = (st, progress, newRemaining)"
| "run_pass ops (i # rest) st progress newRemaining =
     (let op = ops ! i in
      if shouldSkipOperation op (failed st) then run_pass ops rest st progress newRemaining
      else if canExecute op st then
        (case call_action op i st of
           (Some err, st1) \<Rightarrow>
             run_pass ops rest (record_failure op (Wrapped (Description op) err) st1) True newRemaining
         | (None, st1) \<Rightarrow> run_pass ops rest (record_success op st1) True newRemaining)
      else run_pass ops rest st progress (newRemaining @ [i]))"

text \<open>The loop that marks what is left when a pass made no progress.\<close>

fun mark_unreachable :: "'w RollbackOperation list \<Rightarrow> nat list \<Rightarrow> 'w exec_state \<Rightarrow> 'w exec_state" where
  "mark_unreachable ops [] st = st"
| "mark_unreachable ops (i # rest) st =
     mark_unreachable ops rest
       (record_failure (ops ! i) (DependencyConstraint (Description (ops ! i))) st)"

lemma run_pass_length:
  "run_pass ops rem st p nr = (st', p', nr') \<Longrightarrow>
     length nr' \<le> length nr + length rem \<and> (p' \<and> \<not> p \<longrightarrow> length nr' < length nr + length rem)"
proof (induction rem arbitrary: st p nr)
  case Nil
  then show ?case by auto
next
  case (Cons i rest)
  then show ?case
    by (fastforce simp: Let_def split: if_splits prod.splits option.splits)
qed

text \<open>\<open>for len(remaining) > 0 { ... }\<close>\<close>

function dependency_loop ::
  "'w RollbackOperation list \<Rightarrow> nat list \<Rightarrow> 'w exec_state \<Rightarrow> 'w exec_state" where
  "dependency_loop ops remaining st =
     (if remaining = [] then st
      else
        (case run_pass ops remaining st False [] of
           (st1, progress, newRemaining) \<Rightarrow>
             if \<not> progress \<and> newRemaining \<noteq> [] then mark_unreachable ops newRemaining st1
             else dependency_loop ops newRemaining st1))"
  by pat_completeness auto
termination
proof (relation "measure (\<lambda>(ops, remaining, st). length remaining)")
  show "wf (measure (\<lambda>(ops, remaining, st). length remaining))" by simp
next
  fix ops :: "'w RollbackOperation list" and remaining st x1 x2 progress newRemaining
  assume ne: "remaining \<noteq> []"
    and rp: "(x1, x2) = run_pass ops remaining st False []"
    and x2: "(progress, newRemaining) = x2"
    and go: "\<not> (\<not> progress \<and> newRemaining \<noteq> [])"
  from rp x2 have "run_pass ops remaining st False [] = (x1, progress, newRemaining)" by simp
  from run_pass_length[OF this] go ne
  have "length newRemaining < length remaining" by (cases newRemaining) auto
  then show "((ops, newRemaining, x1), (ops, remaining, st)) \<in> measure (\<lambda>(ops, remaining, st). length remaining)"
    by simp
qed

declare dependency_loop.simps [simp del]

definition finish :: "'w RollbackManager \<Rightarrow> 'w exec_state \<Rightarrow> error option \<times> 'w RollbackManager \<times> 'w exec_state" where
  "finish rm st =
     (if errors st \<noteq> [] then
        Some (FileSystemError ''rollback'' []
               (''rollback completed with '' @ show_nat (length (errors st)) @ '' errors'')
               (Some (ErrorList ''errors'' (errors st))))
      else None,
      clearOperations (rm\<lparr>lastError := last_err st\<rparr>), st)"

text \<open>
  \<open>Execute\<close> returns its error, the manager as it leaves it, and the final values of its
  local variables together with the world and the log of invoked actions.
\<close>

definition Execute :: "'w RollbackManager \<Rightarrow> 'w \<Rightarrow> error option \<times> 'w RollbackManager \<times> 'w exec_state" where
  "Execute rm w =
     (let ops = operations rm; st0 = init_state rm w in
      if ops = [] then (None, rm, st0)
      else if failFast rm then
        (case phase1 ops (failFastExplicitlySet rm) (length ops) st0 of
           Inl (e, st) \<Rightarrow> (Some e, clearOperations (rm\<lparr>lastError := last_err st\<rparr>), st)
         | Inr st1 \<Rightarrow>
             finish rm (if \<not> failFastExplicitlySet rm \<or> errors st1 = []
                        then phase2 ops (length ops) st1 else st1))
      else finish rm (dependency_loop ops [0..<length ops] st0))"

subsection \<open>The mock repository of the test suite\<close>

text \<open>\<open>MockGitRepo\<close> of \<open>rollback_test.go\<close>: it logs what it removed and fails on demand.\<close>

record MockGitRepo =
  removedWorktrees :: "string list"
  deletedBranches :: "string list"
  removeError :: "error option"
  deleteError :: "error option"

definition mock_RemoveWorktree :: "string \<Rightarrow> bool \<Rightarrow> MockGitRepo action" where
  "mock_RemoveWorktree path force m =
     (case removeError m of
        Some e \<Rightarrow> (Some e, m)
      | None \<Rightarrow> (None, m\<lparr>removedWorktrees := removedWorktrees m @ [path]\<rparr>))"

definition mock_DeleteBranch :: "string \<Rightarrow> bool \<Rightarrow> MockGitRepo action" where
  "mock_DeleteBranch name force m =
     (case deleteError m of
        Some e \<Rightarrow> (Some e, m)
      | None \<Rightarrow> (None, m\<lparr>deletedBranches := deletedBranches m @ [name]\<rparr>))"

definition mockRepo :: "MockGitRepo Repository" where
  "mockRepo = \<lparr> RemoveWorktree = mock_RemoveWorktree, DeleteBranch = mock_DeleteBranch \<rparr>"

definition mock_world :: "error option \<Rightarrow> error option \<Rightarrow> MockGitRepo" where
  "mock_world rmErr delErr =
     \<lparr> removedWorktrees = [], deletedBranches = [], removeError = rmErr, deleteError = delErr \<rparr>"

text \<open>A ledger is well formed when every operation carries its position as its ID, which is
  what the \<open>Add...Cleanup\<close> methods establish.\<close>

definition wf_ledger :: "'w RollbackOperation list \<Rightarrow> bool" where
  "wf_ledger ops = (map ID ops = map int [0..<length ops])"

text \<open>Every ledger built with the methods of the manager is well formed.\<close>

lemma wf_ledger_new: "wf_ledger (operations (NewRollbackManager r))"
  by (simp add: wf_ledger_def NewRollbackManager_def)

lemma wf_ledger_appendOperation:
  "wf_ledger (operations rm) \<Longrightarrow> wf_ledger (operations (snd (appendOperation rm ty d a c)))"
  by (simp add: wf_ledger_def appendOperation_def Let_def)

lemma wf_ledger_Add:
  assumes "wf_ledger (operations rm)"
  shows "wf_ledger (operations (snd (AddWorktreeCleanup rm path)))"
    and "wf_ledger (operations (snd (AddBranchCleanup rm branch)))"
    and "wf_ledger (operations (snd (AddFileCleanup os rm path)))"
    and "wf_ledger (operations (snd (AddLinkCleanup os rm links)))"
  using assms
  by (simp_all add: AddWorktreeCleanup_def AddBranchCleanup_def AddFileCleanup_def AddLinkCleanup_def
        wf_ledger_appendOperation)

lemma wf_ledger_AddDependency:
  assumes "wf_ledger (operations rm)" and "AddDependency rm x y = Some rm'"
  shows "wf_ledger (operations rm')"
proof (cases "0 \<le> x \<and> x < int (length (operations rm))")
  case False
  with assms show ?thesis by (auto simp: AddDependency_def split: if_splits)
next
  case True
  let ?i = "nat x"
  from True assms(2) have ops: "operations rm' =
      (operations rm)[?i := (operations rm ! ?i)\<lparr>DependsOn := DependsOn (operations rm ! ?i) @ [y]\<rparr>]"
    by (auto simp: AddDependency_def Let_def)
  have "map ID ((operations rm)[?i := (operations rm ! ?i)\<lparr>DependsOn := DependsOn (operations rm ! ?i) @ [y]\<rparr>])
        = map ID (operations rm)"
  proof -
    from True have "?i < length (operations rm)" by (simp add: nat_less_iff)
    then show ?thesis by (simp add: map_update list_update_same_conv)
  qed
  with assms(1) ops show ?thesis by (simp add: wf_ledger_def)
qed

lemma wf_ledger_cleared: "wf_ledger (operations (clearOperations rm))"
  by (simp add: wf_ledger_def clearOperations_def)

section \<open>Reasoning about the loops of Execute\<close>

text \<open>
  In the default mode of phase 1, in phase 2 and in a dependency pass, an operation that is
  run goes through the same three steps: the call, and the bookkeeping of its result.
\<close>

definition exec_op :: "'w RollbackOperation \<Rightarrow> nat \<Rightarrow> 'w exec_state \<Rightarrow> 'w exec_state" where
  "exec_op op i st =
     (case call_action op i st of
        (Some err, st1) \<Rightarrow> record_failure op (Wrapped (Description op) err) st1
      | (None, st1) \<Rightarrow> record_success op st1)"

lemma exec_op_cases:
  obtains (ok) w' where "Action op (world st) = (None, w')"
      and "exec_op op i st =
             st\<lparr>world := w', invoked := invoked st @ [(i, None)],
                executed := insert (ID op) (executed st)\<rparr>"
  | (fail) err w' where "Action op (world st) = (Some err, w')"
      and "exec_op op i st =
             st\<lparr>world := w', invoked := invoked st @ [(i, Some err)],
                errors := errors st @ [Wrapped (Description op) err],
                failed := insert (ID op) (failed st),
                last_err := Some (Wrapped (Description op) err)\<rparr>"
proof (cases "Action op (world st)")
  case (Pair r w')
  show ?thesis
  proof (cases r)
    case None
    with Pair show ?thesis
      by (intro ok[of w']) (simp_all add: exec_op_def call_action_def record_success_def)
  next
    case (Some err)
    with Pair show ?thesis
      by (intro fail[of err w']) (simp_all add: exec_op_def call_action_def record_failure_def)
  qed
qed

lemma failure_update_order:
  "st\<lparr>last_err := a, failed := b, errors := c\<rparr> = st\<lparr>errors := c, failed := b, last_err := a\<rparr>"
  by (cases st) simp

lemma phase1_Suc_default:
  "phase1 ops False (Suc i) st =
     (if \<not> Critical (ops ! i) \<or> shouldSkipOperation (ops ! i) (failed st)
      then phase1 ops False i st
      else phase1 ops False i (exec_op (ops ! i) i st))"
  by (auto simp: Let_def exec_op_def call_action_def record_failure_def record_success_def
                 failure_update_order
           split: prod.splits option.splits)

lemma phase2_Suc:
  "phase2 ops (Suc i) st =
     (if Critical (ops ! i) \<or> ID (ops ! i) \<in> executed st \<or> shouldSkipOperation (ops ! i) (failed st)
      then phase2 ops i st
      else phase2 ops i (exec_op (ops ! i) i st))"
  by (auto simp: Let_def exec_op_def split: prod.splits option.splits)

lemma run_pass_Cons:
  "run_pass ops (i # rest) st p nr =
     (if shouldSkipOperation (ops ! i) (failed st) then run_pass ops rest st p nr
      else if canExecute (ops ! i) st then run_pass ops rest (exec_op (ops ! i) i st) True nr
      else run_pass ops rest st p (nr @ [i]))"
  by (auto simp: Let_def exec_op_def split: prod.splits option.splits)

lemma phase1_default_total: "\<exists>st'. phase1 ops False n st = Inr st'"
  by (induction n arbitrary: st) (auto simp: phase1_Suc_default simp del: phase1.simps(2))

lemma phase1_rule:
  assumes "Q n st"
    and "\<And>i s. i < n \<Longrightarrow> Q (Suc i) s \<Longrightarrow>
           \<not> Critical (ops ! i) \<or> shouldSkipOperation (ops ! i) (failed s) \<Longrightarrow> Q i s"
    and "\<And>i s. i < n \<Longrightarrow> Q (Suc i) s \<Longrightarrow>
           Critical (ops ! i) \<Longrightarrow> \<not> shouldSkipOperation (ops ! i) (failed s) \<Longrightarrow>
           Q i (exec_op (ops ! i) i s)"
    and "phase1 ops False n st = Inr st'"
  shows "Q 0 st'"
proof -
  have "k \<le> n \<Longrightarrow> Q k s \<Longrightarrow> phase1 ops False k s = Inr st' \<Longrightarrow> Q 0 st'" for k s
  proof (induction k arbitrary: s)
    case 0
    then show ?case by simp
  next
    case (Suc k)
    show ?case
    proof (cases "\<not> Critical (ops ! k) \<or> shouldSkipOperation (ops ! k) (failed s)")
      case True
      with Suc.prems have "phase1 ops False k s = Inr st'"
        by (simp add: phase1_Suc_default del: phase1.simps(2))
      moreover from assms(2)[of k s] Suc.prems True have "Q k s" by simp
      ultimately show ?thesis using Suc.IH Suc.prems(1) by simp
    next
      case False
      with Suc.prems have "phase1 ops False k (exec_op (ops ! k) k s) = Inr st'"
        by (simp add: phase1_Suc_default del: phase1.simps(2))
      moreover from assms(3)[of k s] Suc.prems False have "Q k (exec_op (ops ! k) k s)" by simp
      ultimately show ?thesis using Suc.IH Suc.prems(1) by simp
    qed
  qed
  from this[of n st] assms(1,4) show ?thesis by simp
qed

lemma phase2_rule:
  assumes "Q n st"
    and "\<And>i s. i < n \<Longrightarrow> Q (Suc i) s \<Longrightarrow>
           Critical (ops ! i) \<or> ID (ops ! i) \<in> executed s \<or> shouldSkipOperation (ops ! i) (failed s) \<Longrightarrow> Q i s"
    and "\<And>i s. i < n \<Longrightarrow> Q (Suc i) s \<Longrightarrow>
           \<not> Critical (ops ! i) \<Longrightarrow> ID (ops ! i) \<notin> executed s \<Longrightarrow>
           \<not> shouldSkipOperation (ops ! i) (failed s) \<Longrightarrow>
           Q i (exec_op (ops ! i) i s)"
  shows "Q 0 (phase2 ops n st)"
proof -
  have "k \<le> n \<Longrightarrow> Q k s \<Longrightarrow> Q 0 (phase2 ops k s)" for k s
  proof (induction k arbitrary: s)
    case 0
    then show ?case by simp
  next
    case (Suc k)
    show ?case
    proof (cases "Critical (ops ! k) \<or> ID (ops ! k) \<in> executed s \<or> shouldSkipOperation (ops ! k) (failed s)")
      case True
      from assms(2)[of k s] Suc.prems True have "Q k s" by simp
      with Suc.IH Suc.prems(1) True show ?thesis
        by (simp add: phase2_Suc del: phase2.simps(2))
    next
      case False
      from assms(3)[of k s] Suc.prems False have "Q k (exec_op (ops ! k) k s)" by simp
      with Suc.IH Suc.prems(1) False show ?thesis
        by (simp add: phase2_Suc del: phase2.simps(2))
    qed
  qed
  from this[of n st] assms(1) show ?thesis by simp
qed

lemma run_pass_rule:
  assumes "J (nr @ rem) st"
    and "\<And>a i b s. J (a @ i # b) s \<Longrightarrow> shouldSkipOperation (ops ! i) (failed s) \<Longrightarrow> J (a @ b) s"
    and "\<And>a i b s. J (a @ i # b) s \<Longrightarrow> \<not> shouldSkipOperation (ops ! i) (failed s) \<Longrightarrow>
           canExecute (ops ! i) s \<Longrightarrow> J (a @ b) (exec_op (ops ! i) i s)"
    and "run_pass ops rem st p nr = (st', p', nr')"
  shows "J nr' st'"
  using assms(1,4)
proof (induction rem arbitrary: st p nr)
  case Nil
  then show ?case by simp
next
  case (Cons i rest)
  consider (skip) "shouldSkipOperation (ops ! i) (failed st)"
    | (run) "\<not> shouldSkipOperation (ops ! i) (failed st)" "canExecute (ops ! i) st"
    | (keep) "\<not> shouldSkipOperation (ops ! i) (failed st)" "\<not> canExecute (ops ! i) st"
    by blast
  then show ?case
  proof cases
    case skip
    with Cons.prems have "run_pass ops rest st p nr = (st', p', nr')"
      by (simp add: run_pass_Cons del: run_pass.simps(2))
    moreover from assms(2)[of nr i rest st] Cons.prems(1) skip have "J (nr @ rest) st" by simp
    ultimately show ?thesis using Cons.IH by blast
  next
    case run
    with Cons.prems have "run_pass ops rest (exec_op (ops ! i) i st) True nr = (st', p', nr')"
      by (simp add: run_pass_Cons del: run_pass.simps(2))
    moreover from assms(3)[of nr i rest st] Cons.prems(1) run
    have "J (nr @ rest) (exec_op (ops ! i) i st)" by simp
    ultimately show ?thesis using Cons.IH by blast
  next
    case keep
    with Cons.prems have "run_pass ops rest st p (nr @ [i]) = (st', p', nr')"
      by (simp add: run_pass_Cons del: run_pass.simps(2))
    moreover from Cons.prems(1) have "J ((nr @ [i]) @ rest) st" by simp
    ultimately show ?thesis using Cons.IH by blast
  qed
qed

lemma run_pass_progress_mono: "run_pass ops rem st True nr = (st', p', nr') \<Longrightarrow> p'"
  by (induction rem arbitrary: st nr)
     (auto simp: run_pass_Cons simp del: run_pass.simps(2) split: if_splits)

lemma run_pass_no_progress:
  "run_pass ops rem st False nr = (st', False, nr') \<Longrightarrow>
     st' = st \<and> nr' = nr @ filter (\<lambda>i. \<not> shouldSkipOperation (ops ! i) (failed st)) rem \<and>
     (\<forall>i\<in>set rem. \<not> shouldSkipOperation (ops ! i) (failed st) \<longrightarrow> \<not> canExecute (ops ! i) st)"
proof (induction rem arbitrary: nr)
  case Nil
  then show ?case by simp
next
  case (Cons i rest)
  show ?case
  proof (cases "shouldSkipOperation (ops ! i) (failed st)")
    case True
    with Cons show ?thesis by (simp add: run_pass_Cons del: run_pass.simps(2))
  next
    case False
    show ?thesis
    proof (cases "canExecute (ops ! i) st")
      case True
      with False Cons.prems have "run_pass ops rest (exec_op (ops ! i) i st) True nr = (st', False, nr')"
        by (simp add: run_pass_Cons del: run_pass.simps(2))
      from run_pass_progress_mono[OF this] show ?thesis by simp
    next
      case c: False
      with False Cons.prems have "run_pass ops rest st False (nr @ [i]) = (st', False, nr')"
        by (simp add: run_pass_Cons del: run_pass.simps(2))
      from Cons.IH[OF this] False c show ?thesis by simp
    qed
  qed
qed

text \<open>How the dependency loop ends: with nothing left, or stuck on a pass without progress.\<close>

lemma dependency_loop_rule:
  assumes "J rem st"
    and "\<And>a i b s. J (a @ i # b) s \<Longrightarrow> shouldSkipOperation (ops ! i) (failed s) \<Longrightarrow> J (a @ b) s"
    and "\<And>a i b s. J (a @ i # b) s \<Longrightarrow> \<not> shouldSkipOperation (ops ! i) (failed s) \<Longrightarrow>
           canExecute (ops ! i) s \<Longrightarrow> J (a @ b) (exec_op (ops ! i) i s)"
  shows "(J [] (dependency_loop ops rem st)) \<or>
         (\<exists>s nr. J nr s \<and> nr \<noteq> [] \<and>
            (\<forall>i\<in>set nr. \<not> shouldSkipOperation (ops ! i) (failed s) \<and> \<not> canExecute (ops ! i) s) \<and>
            dependency_loop ops rem st = mark_unreachable ops nr s)"
  using assms
proof (induction ops rem st rule: dependency_loop.induct)
  case (1 ops remaining st)
  note skipI = "1.prems"(2) and runI = "1.prems"(3)
  show ?case
  proof (cases "remaining = []")
    case True
    with "1.prems"(1) show ?thesis by (simp add: dependency_loop.simps)
  next
    case False
    obtain st1 progress newRemaining
      where rp: "run_pass ops remaining st False [] = (st1, progress, newRemaining)"
      by (cases "run_pass ops remaining st False []") auto
    have J1: "J newRemaining st1"
    proof (rule run_pass_rule[where J = J and ops = ops and nr = "[]", OF _ _ _ rp])
      show "J ([] @ remaining) st" using "1.prems"(1) by simp
    next
      fix a i b s
      assume "J (a @ i # b) s" "shouldSkipOperation (ops ! i) (failed s)"
      then show "J (a @ b) s" by (rule skipI)
    next
      fix a i b s
      assume "J (a @ i # b) s" "\<not> shouldSkipOperation (ops ! i) (failed s)" "canExecute (ops ! i) s"
      then show "J (a @ b) (exec_op (ops ! i) i s)" by (rule runI)
    qed
    show ?thesis
    proof (cases "\<not> progress \<and> newRemaining \<noteq> []")
      case True
      with rp have np: "run_pass ops remaining st False [] = (st1, False, newRemaining)" by simp
      from run_pass_no_progress[OF np]
      have "\<forall>i\<in>set newRemaining. \<not> shouldSkipOperation (ops ! i) (failed st1) \<and> \<not> canExecute (ops ! i) st1"
        by auto
      moreover from False rp True
      have "dependency_loop ops remaining st = mark_unreachable ops newRemaining st1"
        by (subst dependency_loop.simps) simp
      ultimately show ?thesis using J1 True by blast
    next
      case go: False
      with False rp have eq: "dependency_loop ops remaining st = dependency_loop ops newRemaining st1"
        by (subst dependency_loop.simps) auto
      have "J [] (dependency_loop ops newRemaining st1) \<or>
            (\<exists>s nr. J nr s \<and> nr \<noteq> [] \<and>
               (\<forall>i\<in>set nr. \<not> shouldSkipOperation (ops ! i) (failed s) \<and> \<not> canExecute (ops ! i) s) \<and>
               dependency_loop ops newRemaining st1 = mark_unreachable ops nr s)"
      proof (rule "1.IH"[OF False rp[symmetric] refl go J1])
        fix a i b s
        assume "J (a @ i # b) s" "shouldSkipOperation (ops ! i) (failed s)"
        then show "J (a @ b) s" by (rule skipI)
      next
        fix a i b s
        assume "J (a @ i # b) s" "\<not> shouldSkipOperation (ops ! i) (failed s)" "canExecute (ops ! i) s"
        then show "J (a @ b) (exec_op (ops ! i) i s)" by (rule runI)
      qed
      then show ?thesis unfolding eq .
    qed
  qed
qed

subsection \<open>Phase 1 under explicit fail-fast\<close>

lemma phase1_Suc_explicit:
  "phase1 ops True (Suc i) st =
     (if \<not> Critical (ops ! i) \<or> shouldSkipOperation (ops ! i) (failed st)
      then phase1 ops True i st
      else
        (case Action (ops ! i) (world st) of
           (None, w') \<Rightarrow>
             phase1 ops True i
               (st\<lparr>world := w', invoked := invoked st @ [(i, None)],
                   executed := insert (ID (ops ! i)) (executed st)\<rparr>)
         | (Some err, w') \<Rightarrow>
             Inl (critical_failure (ops ! i) err,
                  st\<lparr>world := w', invoked := invoked st @ [(i, Some err)],
                     last_err := Some (Wrapped (Description (ops ! i)) err)\<rparr>)))"
  by (auto simp: Let_def call_action_def record_success_def split: prod.splits option.splits)

lemma phase1_explicit_Inr:
  "phase1 ops True n st = Inr st' \<Longrightarrow>
     errors st' = errors st \<and> failed st' = failed st \<and> last_err st' = last_err st \<and>
     (\<exists>tr. invoked st' = invoked st @ tr \<and>
        (\<forall>(j, r)\<in>set tr. r = None \<and> j < n \<and> Critical (ops ! j)))"
proof (induction n arbitrary: st)
  case 0
  then show ?case by simp
next
  case (Suc n)
  show ?case
  proof (cases "\<not> Critical (ops ! n) \<or> shouldSkipOperation (ops ! n) (failed st)")
    case True
    with Suc.prems have "phase1 ops True n st = Inr st'"
      by (simp add: phase1_Suc_explicit del: phase1.simps(2))
    from Suc.IH[OF this] show ?thesis by (fastforce simp: less_Suc_eq)
  next
    case False
    obtain r w' where a: "Action (ops ! n) (world st) = (r, w')" by (cases "Action (ops ! n) (world st)")
    with False Suc.prems obtain r: "r = None" and
      p: "phase1 ops True n (st\<lparr>world := w', invoked := invoked st @ [(n, None)],
                                   executed := insert (ID (ops ! n)) (executed st)\<rparr>) = Inr st'"
      by (cases r) (auto simp: phase1_Suc_explicit simp del: phase1.simps(2))
    from Suc.IH[OF p] False show ?thesis
      by (fastforce simp: less_Suc_eq)
  qed
qed

lemma phase1_explicit_Inl:
  "phase1 ops True n st = Inl (e, st') \<Longrightarrow>
     \<exists>i err tr. i < n \<and> Critical (ops ! i) \<and> e = critical_failure (ops ! i) err \<and>
       last_err st' = Some (Wrapped (Description (ops ! i)) err) \<and>
       errors st' = errors st \<and> failed st' = failed st \<and>
       invoked st' = invoked st @ tr @ [(i, Some err)] \<and>
       (\<forall>(j, r)\<in>set tr. r = None \<and> i < j \<and> j < n \<and> Critical (ops ! j))"
proof (induction n arbitrary: st)
  case 0
  then show ?case by simp
next
  case (Suc n)
  show ?case
  proof (cases "\<not> Critical (ops ! n) \<or> shouldSkipOperation (ops ! n) (failed st)")
    case True
    with Suc.prems have "phase1 ops True n st = Inl (e, st')"
      by (simp add: phase1_Suc_explicit del: phase1.simps(2))
    from Suc.IH[OF this] show ?thesis by (fastforce simp: less_Suc_eq)
  next
    case False
    obtain r w' where a: "Action (ops ! n) (world st) = (r, w')" by (cases "Action (ops ! n) (world st)")
    show ?thesis
    proof (cases r)
      case None
      with a False Suc.prems have
        p: "phase1 ops True n (st\<lparr>world := w', invoked := invoked st @ [(n, None)],
                                     executed := insert (ID (ops ! n)) (executed st)\<rparr>) = Inl (e, st')"
        by (auto simp: phase1_Suc_explicit simp del: phase1.simps(2))
      from Suc.IH[OF p] obtain i err tr where
        h: "i < n" "Critical (ops ! i)" "e = critical_failure (ops ! i) err"
           "last_err st' = Some (Wrapped (Description (ops ! i)) err)"
           "errors st' = errors st" "failed st' = failed st"
           "invoked st' = invoked st @ ((n, None) # tr) @ [(i, Some err)]"
           "\<forall>(j, r)\<in>set tr. r = None \<and> i < j \<and> j < n \<and> Critical (ops ! j)"
        by auto
      from h(8) h(1) False have "\<forall>(j, r)\<in>set ((n, None) # tr). r = None \<and> i < j \<and> j < Suc n \<and> Critical (ops ! j)"
        by (auto simp: less_Suc_eq)
      with h show ?thesis
        by (intro exI[of _ i] exI[of _ err] exI[of _ "(n, None) # tr"]) simp
    next
      case (Some err)
      with a False Suc.prems have "e = critical_failure (ops ! n) err"
        and "st' = st\<lparr>world := w', invoked := invoked st @ [(n, Some err)],
                     last_err := Some (Wrapped (Description (ops ! n)) err)\<rparr>"
        by (auto simp: phase1_Suc_explicit simp del: phase1.simps(2))
      with False show ?thesis
        by (intro exI[of _ n] exI[of _ err] exI[of _ "[]"]) simp
    qed
  qed
qed

subsection \<open>The last error follows the recorded errors\<close>

definition last_err_tracks :: "error option \<Rightarrow> 'w exec_state \<Rightarrow> bool" where
  "last_err_tracks init st =
     (last_err st = (if errors st = [] then init else Some (last (errors st))))"

lemma exec_op_last_err_tracks:
  "last_err_tracks init st \<Longrightarrow> last_err_tracks init (exec_op op i st)"
  by (cases rule: exec_op_cases[of op st i]) (simp_all add: last_err_tracks_def)

lemma mark_unreachable_last_err_tracks:
  "last_err_tracks init st \<Longrightarrow> last_err_tracks init (mark_unreachable ops nr st)"
  by (induction nr arbitrary: st) (simp_all add: last_err_tracks_def record_failure_def)

lemma phase1_last_err_tracks:
  "last_err_tracks init st \<Longrightarrow> phase1 ops False n st = Inr st' \<Longrightarrow> last_err_tracks init st'"
  by (rule phase1_rule[where Q = "\<lambda>_. last_err_tracks init"]) (simp_all add: exec_op_last_err_tracks)

lemma phase2_last_err_tracks:
  "last_err_tracks init st \<Longrightarrow> last_err_tracks init (phase2 ops n st)"
  by (rule phase2_rule[where Q = "\<lambda>_. last_err_tracks init"]) (simp_all add: exec_op_last_err_tracks)

lemma dependency_loop_last_err_tracks:
  assumes "last_err_tracks init st"
  shows "last_err_tracks init (dependency_loop ops rem st)"
  using dependency_loop_rule[where J = "\<lambda>_. last_err_tracks init" and ops = ops and rem = rem and st = st]
    assms exec_op_last_err_tracks mark_unreachable_last_err_tracks
  by metis

section \<open>Concrete ledgers\<close>

text \<open>The ledger of \<open>TestRollbackManager_ExecuteWithErrors\<close>: a worktree cleanup
  (critical), then a branch cleanup (non-critical).\<close>

definition ledger_wt_branch :: "MockGitRepo RollbackManager" where
  "ledger_wt_branch =
     snd (AddBranchCleanup (snd (AddWorktreeCleanup (NewRollbackManager mockRepo) ''/worktree'')) ''branch'')"

lemmas api_defs = NewRollbackManager_def AddWorktreeCleanup_def AddBranchCleanup_def
  appendOperation_def AddDependency_def SetFailFast_def mockRepo_def mock_world_def
  mock_RemoveWorktree_def mock_DeleteBranch_def

lemmas exec_defs = Execute_def init_state_def finish_def clearOperations_def call_action_def
  record_failure_def record_success_def shouldSkipOperation_def canExecute_def critical_failure_def
  GetLastError_def

section \<open>AddDependency\<close>

text \<open>
  C10. \<open>AddDependency(dependentID, dependsOnID)\<close> with \<open>dependentID\<close> greater than or
  equal to the number of operations in the ledger changes nothing and reports nothing: the
  manager (ledger and dependency index) is returned as it was. \<open>dependsOnID\<close> is never
  checked: for a \<open>dependentID\<close> in range, any \<open>dependsOnID\<close> whatever is appended to
  the operation's dependencies.
\<close>

theorem AddDependency_out_of_range:
  "(int (length (operations rm)) \<le> dependentID \<longrightarrow>
      AddDependency rm dependentID dependsOnID = Some rm) \<and>
   (0 \<le> dependentID \<and> dependentID < int (length (operations rm)) \<longrightarrow>
      (\<exists>rm'. AddDependency rm dependentID dependsOnID = Some rm' \<and>
         DependsOn (operations rm' ! nat dependentID) =
           DependsOn (operations rm ! nat dependentID) @ [dependsOnID]))"
  by (auto simp: AddDependency_def Let_def)

theorem AddDependency_out_of_range_witness:
  "AddDependency ledger_wt_branch 2 0 = Some ledger_wt_branch \<and>
   (\<exists>rm'. AddDependency ledger_wt_branch 1 (-7) = Some rm' \<and>
      DependsOn (operations rm' ! nat 1) = DependsOn (operations ledger_wt_branch ! nat 1) @ [-7])"
  using AddDependency_out_of_range[of ledger_wt_branch 2 0]
        AddDependency_out_of_range[of ledger_wt_branch 1 "-7"]
  by (simp add: ledger_wt_branch_def api_defs)


section \<open>The last error survives the clearing of the ledger\<close>

lemma init_last_err_tracks: "last_err_tracks (lastError rm) (init_state rm w)"
  by (simp add: last_err_tracks_def init_state_def)

lemma Execute_ledger_cleared:
  "Execute rm w = (ret, rm', st) \<Longrightarrow> operations rm' = []"
  by (auto simp: Execute_def Let_def finish_def clearOperations_def split: if_splits sum.splits prod.splits)

lemma Execute_lastError:
  "Execute rm w = (ret, rm', st) \<Longrightarrow> lastError rm' = last_err st"
  by (auto simp: Execute_def Let_def finish_def clearOperations_def init_state_def
           split: if_splits sum.splits prod.splits)

lemma Execute_last_err_cases:
  assumes "Execute rm w = (ret, rm', st)"
  shows "(ret = None \<and> errors st = [] \<and> last_err st = lastError rm) \<or>
         (\<exists>msg. ret = Some (FileSystemError ''rollback'' [] msg (Some (ErrorList ''errors'' (errors st)))) \<and>
            errors st \<noteq> [] \<and> last_err st = Some (last (errors st))) \<or>
         (\<exists>i err. i < length (operations rm) \<and> ret = Some (critical_failure (operations rm ! i) err) \<and>
            errors st = [] \<and> failFast rm \<and> failFastExplicitlySet rm \<and>
            last_err st = Some (Wrapped (Description (operations rm ! i)) err))"
proof (cases "operations rm = []")
  case True
  with assms show ?thesis by (auto simp: Execute_def init_state_def)
next
  case ne: False
  let ?ops = "operations rm" and ?st0 = "init_state rm w"
  have t0: "last_err_tracks (lastError rm) ?st0" by (rule init_last_err_tracks)
  have fin: ?thesis if f: "finish rm s = (ret, rm', st)" and t: "last_err_tracks (lastError rm) s" for s
  proof (cases "errors s = []")
    case True
    with f t have "ret = None \<and> errors st = [] \<and> last_err st = lastError rm"
      by (auto simp: finish_def last_err_tracks_def)
    then show ?thesis by (rule disjI1)
  next
    case False
    with f t have "ret = Some (FileSystemError ''rollback'' []
               (''rollback completed with '' @ show_nat (length (errors st)) @ '' errors'')
               (Some (ErrorList ''errors'' (errors st)))) \<and>
            errors st \<noteq> [] \<and> last_err st = Some (last (errors st))"
      by (auto simp: finish_def last_err_tracks_def)
    then show ?thesis by blast
  qed
  show ?thesis
  proof (cases "failFast rm")
    case False
    with ne assms have "finish rm (dependency_loop ?ops [0..<length ?ops] ?st0) = (ret, rm', st)"
      by (simp add: Execute_def Let_def)
    then show ?thesis
      by (rule fin) (rule dependency_loop_last_err_tracks[OF t0])
  next
    case ff: True
    show ?thesis
    proof (cases "failFastExplicitlySet rm")
      case False
      obtain st1 where p1: "phase1 ?ops False (length ?ops) ?st0 = Inr st1"
        using phase1_default_total by blast
      with ne ff False assms have "finish rm (phase2 ?ops (length ?ops) st1) = (ret, rm', st)"
        by (simp add: Execute_def Let_def)
      then show ?thesis
        by (rule fin) (rule phase2_last_err_tracks[OF phase1_last_err_tracks[OF t0 p1]])
    next
      case ex: True
      show ?thesis
      proof (cases "phase1 ?ops True (length ?ops) ?st0")
        case (Inl a)
        then obtain e s where p1: "phase1 ?ops True (length ?ops) ?st0 = Inl (e, s)" by (cases a) auto
        with ne ff ex assms have r: "ret = Some e" "st = s" by (auto simp: Execute_def Let_def)
        from phase1_explicit_Inl[OF p1] r ff ex show ?thesis
          by (auto simp: init_state_def)
      next
        case (Inr st1)
        from phase1_explicit_Inr[OF Inr] have e1: "errors st1 = []" "last_err st1 = lastError rm"
          by (simp_all add: init_state_def)
        then have t1: "last_err_tracks (lastError rm) st1" by (simp add: last_err_tracks_def)
        from Inr ne ff ex assms e1 have "finish rm (phase2 ?ops (length ?ops) st1) = (ret, rm', st)"
          by (simp add: Execute_def Let_def)
        then show ?thesis
          by (rule fin) (rule phase2_last_err_tracks[OF t1])
      qed
    qed
  qed
qed

text \<open>
  C8. \<open>clearOperations\<close> (and so \<open>Clear\<close>) resets the operation list and the dependency
  index only: the stored last error and the fail-fast flags are unchanged. After
  \<open>Execute\<close>, which clears the ledger, \<open>GetLastError\<close> returns the most recent error
  recorded during the execution: the last of the collected errors when there are any, the
  wrapped error of the failing critical operation when \<open>Execute\<close> aborted, and the error
  stored before when \<open>Execute\<close> returned \<open>nil\<close>.
\<close>

theorem lastError_survives_clearing:
  "lastError (clearOperations rm) = lastError rm \<and>
   operations (clearOperations rm) = [] \<and> dependencies (clearOperations rm) = Map.empty \<and>
   failFast (clearOperations rm) = failFast rm \<and>
   failFastExplicitlySet (clearOperations rm) = failFastExplicitlySet rm \<and>
   GetLastError (Clear rm) = GetLastError rm \<and>
   (Execute rm w = (ret, rm', st) \<longrightarrow>
      operations rm' = [] \<and>
      (ret = None \<longrightarrow> GetLastError rm' = GetLastError rm) \<and>
      (errors st \<noteq> [] \<longrightarrow> GetLastError rm' = Some (last (errors st))) \<and>
      (\<forall>d err. ret = Some (FileSystemError ''rollback-critical-failure'' []
                            (''critical rollback operation failed: '' @ d) (Some err)) \<longrightarrow>
         GetLastError rm' = Some (Wrapped d err)))"
proof -
  have "operations rm' = [] \<and>
      (ret = None \<longrightarrow> GetLastError rm' = GetLastError rm) \<and>
      (errors st \<noteq> [] \<longrightarrow> GetLastError rm' = Some (last (errors st))) \<and>
      (\<forall>d err. ret = Some (FileSystemError ''rollback-critical-failure'' []
                            (''critical rollback operation failed: '' @ d) (Some err)) \<longrightarrow>
         GetLastError rm' = Some (Wrapped d err))" if ex: "Execute rm w = (ret, rm', st)"
    using Execute_last_err_cases[OF ex] Execute_lastError[OF ex] Execute_ledger_cleared[OF ex]
    by (auto simp: GetLastError_def critical_failure_def)
  then show ?thesis
    by (simp add: clearOperations_def Clear_def GetLastError_def)
qed

definition boom :: error where "boom = ErrOther ''boom''"

theorem lastError_survives_clearing_witness:
  "GetLastError (fst (snd (Execute ledger_wt_branch (mock_world (Some boom) None)))) =
     Some (Wrapped ''Remove worktree at /worktree'' boom) \<and>
   operations (fst (snd (Execute ledger_wt_branch (mock_world (Some boom) None)))) = [] \<and>
   GetLastError (fst (snd (Execute (SetFailFast ledger_wt_branch True) (mock_world (Some boom) None)))) =
     Some (Wrapped ''Remove worktree at /worktree'' boom)"
  using lastError_survives_clearing[of ledger_wt_branch "mock_world (Some boom) None"
          "fst (Execute ledger_wt_branch (mock_world (Some boom) None))"
          "fst (snd (Execute ledger_wt_branch (mock_world (Some boom) None)))"
          "snd (snd (Execute ledger_wt_branch (mock_world (Some boom) None)))"]
        lastError_survives_clearing[of "SetFailFast ledger_wt_branch True" "mock_world (Some boom) None"
          "fst (Execute (SetFailFast ledger_wt_branch True) (mock_world (Some boom) None))"
          "fst (snd (Execute (SetFailFast ledger_wt_branch True) (mock_world (Some boom) None)))"
          "snd (snd (Execute (SetFailFast ledger_wt_branch True) (mock_world (Some boom) None)))"]
  by (simp add: ledger_wt_branch_def api_defs exec_defs Let_def)

section \<open>What the log of invoked actions says about the bookkeeping\<close>

definition op_error :: "'w RollbackOperation list \<Rightarrow> nat \<times> error option \<Rightarrow> error option" where
  "op_error ops c = map_option (Wrapped (Description (ops ! fst c))) (snd c)"

text \<open>As long as no operation has been marked unreachable, the locals of \<open>Execute\<close> are
  determined by the log: \<open>failed\<close> and \<open>executed\<close> hold the IDs of the operations whose
  action failed and succeeded, \<open>errors\<close> the wrapped errors of the failed calls in order.\<close>

definition books :: "'w RollbackOperation list \<Rightarrow> 'w exec_state \<Rightarrow> bool" where
  "books ops st =
     (failed st = (\<lambda>j. ID (ops ! j)) ` {j. \<exists>e. (j, Some e) \<in> set (invoked st)} \<and>
      executed st = (\<lambda>j. ID (ops ! j)) ` {j. (j, None) \<in> set (invoked st)} \<and>
      errors st = List.map_filter (op_error ops) (invoked st) \<and>
      fst ` set (invoked st) \<subseteq> {..<length ops})"

lemma books_init: "books ops (init_state rm w)"
  by (simp add: books_def init_state_def map_filter_simps)

lemma map_filter_snoc: "List.map_filter f (xs @ [x]) = List.map_filter f xs @ (case f x of None \<Rightarrow> [] | Some y \<Rightarrow> [y])"
  by (simp add: List.map_filter_def split: option.splits)

lemma books_exec_op:
  assumes "books ops st" "i < length ops"
  shows "books ops (exec_op (ops ! i) i st)"
proof (cases rule: exec_op_cases[of "ops ! i" st i])
  case (ok w')
  with assms show ?thesis
    by (auto simp: books_def map_filter_snoc op_error_def)
next
  case (fail err w')
  with assms show ?thesis
    by (auto simp: books_def map_filter_snoc op_error_def)
qed

lemma exec_op_grows:
  "failed st \<subseteq> failed (exec_op op i st) \<and> executed st \<subseteq> executed (exec_op op i st) \<and>
   (\<exists>r. invoked (exec_op op i st) = invoked st @ [(i, r)])"
  by (cases rule: exec_op_cases[of op st i]) auto

lemma shouldSkip_mono:
  "shouldSkipOperation op F \<Longrightarrow> F \<subseteq> F' \<Longrightarrow> shouldSkipOperation op F'"
  by (auto simp: shouldSkipOperation_def list_ex_iff)

lemma wf_ledger_ID: "wf_ledger ops \<Longrightarrow> i < length ops \<Longrightarrow> ID (ops ! i) = int i"
proof -
  assume w: "wf_ledger ops" and i: "i < length ops"
  then have "map ID ops ! i = map int [0..<length ops] ! i" by (simp add: wf_ledger_def)
  with i show ?thesis by simp
qed


section \<open>The two phases\<close>

lemma phase1_trace_critical:
  assumes "phase1 ops False n (st :: 'w exec_state) = Inr st'"
  shows "\<exists>tr. invoked st' = invoked st @ tr \<and> sorted_wrt (>) (map fst tr) \<and>
           (\<forall>(j, r)\<in>set tr. Critical (ops ! j) \<and> j < n)"
proof -
  let ?Q = "\<lambda>k (s :: 'w exec_state). \<exists>tr. invoked s = invoked st @ tr \<and> sorted_wrt (>) (map fst tr) \<and>
              (\<forall>(j, r)\<in>set tr. Critical (ops ! j) \<and> k \<le> j \<and> j < n)"
  have "?Q 0 st'"
  proof (rule phase1_rule[where Q = ?Q, OF _ _ _ assms])
    show "?Q n st" by (rule exI[of _ "[]"]) simp
  next
    fix i and s :: "'w exec_state"
    assume "i < n" "?Q (Suc i) s"
    then show "?Q i s" by (fastforce simp: Suc_le_eq)
  next
    fix i and s :: "'w exec_state"
    assume h: "i < n" "?Q (Suc i) s" "Critical (ops ! i)"
    then obtain tr where tr: "invoked s = invoked st @ tr" "sorted_wrt (>) (map fst tr)"
      "\<forall>(j, r)\<in>set tr. Critical (ops ! j) \<and> Suc i \<le> j \<and> j < n"
      by blast
    from exec_op_grows[of s "ops ! i" i] obtain r where "invoked (exec_op (ops ! i) i s) = invoked s @ [(i, r)]"
      by blast
    with tr h(1,3) show "?Q i (exec_op (ops ! i) i s)"
      by (intro exI[of _ "tr @ [(i, r)]"]) (fastforce simp: sorted_wrt_append)
  qed
  then show ?thesis by fastforce
qed

lemma phase2_trace_noncritical:
  "\<exists>tr. invoked (phase2 ops n (st :: 'w exec_state)) = invoked st @ tr \<and> sorted_wrt (>) (map fst tr) \<and>
     (\<forall>(j, r)\<in>set tr. \<not> Critical (ops ! j) \<and> j < n)"
proof -
  let ?Q = "\<lambda>k (s :: 'w exec_state). \<exists>tr. invoked s = invoked st @ tr \<and> sorted_wrt (>) (map fst tr) \<and>
              (\<forall>(j, r)\<in>set tr. \<not> Critical (ops ! j) \<and> k \<le> j \<and> j < n)"
  have "?Q 0 (phase2 ops n st)"
  proof (rule phase2_rule[where Q = ?Q])
    show "?Q n st" by (rule exI[of _ "[]"]) simp
  next
    fix i and s :: "'w exec_state"
    assume "i < n" "?Q (Suc i) s"
    then show "?Q i s" by (fastforce simp: Suc_le_eq)
  next
    fix i and s :: "'w exec_state"
    assume h: "i < n" "?Q (Suc i) s" "\<not> Critical (ops ! i)"
    then obtain tr where tr: "invoked s = invoked st @ tr" "sorted_wrt (>) (map fst tr)"
      "\<forall>(j, r)\<in>set tr. \<not> Critical (ops ! j) \<and> Suc i \<le> j \<and> j < n"
      by blast
    from exec_op_grows[of s "ops ! i" i] obtain r where "invoked (exec_op (ops ! i) i s) = invoked s @ [(i, r)]"
      by blast
    with tr h(1,3) show "?Q i (exec_op (ops ! i) i s)"
      by (intro exI[of _ "tr @ [(i, r)]"]) (fastforce simp: sorted_wrt_append)
  qed
  then show ?thesis by fastforce
qed

section \<open>Explicit fail-fast\<close>

text \<open>
  C1. With \<open>failFast\<close> true and explicitly set, the failure of a critical operation's
  action aborts \<open>Execute\<close> at once: the error returned is the distinguished "critical
  rollback operation failed" error for that operation, the ledger and the dependency index
  are cleared, the failing call is the last call made, and every call made before it is a
  successful call of a critical operation appended after the failing one. So phase 2 is
  never started and no operation appended before the failing one is invoked.
\<close>

theorem explicit_failfast_aborts:
  assumes "failFast rm" and "failFastExplicitlySet rm"
    and "Execute rm w = (ret, rm', st)"
    and "(i, Some e) \<in> set (invoked st)" and "Critical (operations rm ! i)"
  shows "ret = Some (FileSystemError ''rollback-critical-failure'' []
                      (''critical rollback operation failed: '' @ Description (operations rm ! i)) (Some e)) \<and>
         operations rm' = [] \<and> dependencies rm' = Map.empty \<and>
         (\<exists>tr. invoked st = tr @ [(i, Some e)] \<and>
            (\<forall>(j, r)\<in>set tr. r = None \<and> i < j \<and> Critical (operations rm ! j)))"
proof -
  let ?ops = "operations rm" and ?st0 = "init_state rm w"
  from assms(3,4) have ne: "?ops \<noteq> []"
    by (auto simp: Execute_def init_state_def)
  show ?thesis
  proof (cases "phase1 ?ops True (length ?ops) ?st0")
    case (Inr st1)
    from phase1_explicit_Inr[OF Inr] obtain tr where
      e1: "errors st1 = []" and tr: "invoked st1 = tr" "\<forall>(j, r)\<in>set tr. r = None \<and> j < length ?ops \<and> Critical (?ops ! j)"
      by (auto simp: init_state_def)
    from Inr ne assms(1,2,3) e1 have "st = phase2 ?ops (length ?ops) st1"
      by (auto simp: Execute_def Let_def finish_def)
    with phase2_trace_noncritical[of ?ops "length ?ops" st1] tr obtain tr2 where
      "invoked st = tr @ tr2" "\<forall>(j, r)\<in>set tr2. \<not> Critical (?ops ! j) \<and> j < length ?ops"
      by auto
    with tr(2) assms(4,5) show ?thesis by auto
  next
    case (Inl a)
    then obtain err s where p1: "phase1 ?ops True (length ?ops) ?st0 = Inl (err, s)" by (cases a) auto
    with ne assms(1,2,3) have r: "ret = Some err" "st = s" "rm' = clearOperations (rm\<lparr>lastError := last_err s\<rparr>)"
      by (auto simp: Execute_def Let_def)
    from phase1_explicit_Inl[OF p1] obtain k e' tr where
      k: "k < length ?ops" "err = critical_failure (?ops ! k) e'"
         "invoked s = tr @ [(k, Some e')]"
         "\<forall>(j, r)\<in>set tr. r = None \<and> k < j \<and> j < length ?ops \<and> Critical (?ops ! j)"
      by (auto simp: init_state_def)
    from k(3,4) assms(4) r(2) have "i = k" "e = e'" by auto
    with k r show ?thesis
      by (auto simp: critical_failure_def clearOperations_def)
  qed
qed

theorem explicit_failfast_aborts_witness:
  "fst (Execute (SetFailFast ledger_wt_branch True) (mock_world (Some boom) None)) =
     Some (FileSystemError ''rollback-critical-failure'' []
            ''critical rollback operation failed: Remove worktree at /worktree'' (Some boom)) \<and>
   operations (fst (snd (Execute (SetFailFast ledger_wt_branch True) (mock_world (Some boom) None)))) = [] \<and>
   invoked (snd (snd (Execute (SetFailFast ledger_wt_branch True) (mock_world (Some boom) None)))) = [(0, Some boom)]"
  using explicit_failfast_aborts[of "SetFailFast ledger_wt_branch True" "mock_world (Some boom) None"
          "fst (Execute (SetFailFast ledger_wt_branch True) (mock_world (Some boom) None))"
          "fst (snd (Execute (SetFailFast ledger_wt_branch True) (mock_world (Some boom) None)))"
          "snd (snd (Execute (SetFailFast ledger_wt_branch True) (mock_world (Some boom) None)))"
          0 boom]
  by (simp add: ledger_wt_branch_def api_defs exec_defs Let_def)

section \<open>The default mode: every operation is attempted or blocked\<close>

definition attempted_or_blocked :: "'w RollbackOperation list \<Rightarrow> 'w exec_state \<Rightarrow> nat \<Rightarrow> bool" where
  "attempted_or_blocked ops st i =
     (i \<in> fst ` set (invoked st) \<or> shouldSkipOperation (ops ! i) (failed st))"

lemma attempted_or_blocked_exec_op:
  "attempted_or_blocked ops st i \<Longrightarrow> attempted_or_blocked ops (exec_op op j st) i"
  using exec_op_grows[of st op j]
  by (auto simp: attempted_or_blocked_def intro: shouldSkip_mono)

lemma attempted_exec_op: "attempted_or_blocked ops (exec_op op i st) i"
  using exec_op_grows[of st op i] by (auto simp: attempted_or_blocked_def)

lemma phase1_attempts:
  assumes "phase1 ops False n (st :: 'w exec_state) = Inr st'" and "books ops st" and "n \<le> length ops"
  shows "books ops st' \<and> (\<forall>i<n. Critical (ops ! i) \<longrightarrow> attempted_or_blocked ops st' i)"
proof -
  let ?Q = "\<lambda>k (s :: 'w exec_state). books ops s \<and>
              (\<forall>i. k \<le> i \<and> i < n \<and> Critical (ops ! i) \<longrightarrow> attempted_or_blocked ops s i)"
  have "?Q 0 st'"
  proof (rule phase1_rule[where Q = ?Q, OF _ _ _ assms(1)])
    show "?Q n st" using assms(2) by auto
  next
    fix i and s :: "'w exec_state"
    assume h: "i < n" "?Q (Suc i) s" "\<not> Critical (ops ! i) \<or> shouldSkipOperation (ops ! i) (failed s)"
    have "attempted_or_blocked ops s j" if "i \<le> j" "j < n" "Critical (ops ! j)" for j
    proof (cases "j = i")
      case True
      with h(3) that show ?thesis by (auto simp: attempted_or_blocked_def)
    next
      case False
      with that have "Suc i \<le> j" by simp
      with that h(2) show ?thesis by blast
    qed
    with h(2) show "?Q i s" by blast
  next
    fix i and s :: "'w exec_state"
    assume h: "i < n" "?Q (Suc i) s"
    then have "books ops (exec_op (ops ! i) i s)" using assms(3) by (auto intro: books_exec_op)
    moreover have "attempted_or_blocked ops (exec_op (ops ! i) i s) j"
      if "i \<le> j" "j < n" "Critical (ops ! j)" for j
    proof (cases "j = i")
      case True
      then show ?thesis by (simp add: attempted_exec_op)
    next
      case False
      with that have "Suc i \<le> j" by simp
      with that h(2) have "attempted_or_blocked ops s j" by blast
      then show ?thesis by (rule attempted_or_blocked_exec_op)
    qed
    ultimately show "?Q i (exec_op (ops ! i) i s)" by blast
  qed
  then show ?thesis by simp
qed

lemma executed_is_invoked:
  assumes "books ops st" "wf_ledger ops" "i < length ops" "ID (ops ! i) \<in> executed st"
  shows "(i, None) \<in> set (invoked st)"
proof -
  from assms(1,4) obtain j where j: "(j, None) \<in> set (invoked st)" "ID (ops ! j) = ID (ops ! i)"
    by (auto simp: books_def)
  from j(1) assms(1) have "j < length ops" by (force simp: books_def)
  with j(2) assms(2,3) have "j = i" by (simp add: wf_ledger_ID)
  with j(1) show ?thesis by simp
qed

lemma failed_is_invoked:
  assumes "books ops st" "wf_ledger ops" "d \<in> failed st"
  shows "\<exists>j e. (j, Some e) \<in> set (invoked st) \<and> d = int j"
proof -
  from assms(1,3) obtain j e where j: "(j, Some e) \<in> set (invoked st)" "d = ID (ops ! j)"
    by (auto simp: books_def)
  from j(1) assms(1) have "j < length ops" by (force simp: books_def)
  with j assms(2) show ?thesis by (auto simp: wf_ledger_ID)
qed

lemma phase2_attempts:
  assumes "books ops (st :: 'w exec_state)" and "wf_ledger ops" and "n \<le> length ops"
  shows "books ops (phase2 ops n st) \<and>
         (\<forall>i. attempted_or_blocked ops st i \<longrightarrow> attempted_or_blocked ops (phase2 ops n st) i) \<and>
         (\<forall>i<n. \<not> Critical (ops ! i) \<longrightarrow> attempted_or_blocked ops (phase2 ops n st) i)"
proof -
  let ?Q = "\<lambda>k (s :: 'w exec_state). books ops s \<and>
              (\<forall>i. attempted_or_blocked ops st i \<longrightarrow> attempted_or_blocked ops s i) \<and>
              (\<forall>i. k \<le> i \<and> i < n \<and> \<not> Critical (ops ! i) \<longrightarrow> attempted_or_blocked ops s i)"
  have "?Q 0 (phase2 ops n st)"
  proof (rule phase2_rule[where Q = ?Q])
    show "?Q n st" using assms(1) by auto
  next
    fix i and s :: "'w exec_state"
    assume h: "i < n" "?Q (Suc i) s"
      "Critical (ops ! i) \<or> ID (ops ! i) \<in> executed s \<or> shouldSkipOperation (ops ! i) (failed s)"
    have "attempted_or_blocked ops s i" if "\<not> Critical (ops ! i)"
    proof (cases "ID (ops ! i) \<in> executed s")
      case True
      with executed_is_invoked[of ops s i] h assms(2,3) have "(i, None) \<in> set (invoked s)" by simp
      then show ?thesis by (force simp: attempted_or_blocked_def)
    next
      case False
      with h(3) that show ?thesis by (simp add: attempted_or_blocked_def)
    qed
    then have "attempted_or_blocked ops s j" if "i \<le> j" "j < n" "\<not> Critical (ops ! j)" for j
    proof (cases "j = i")
      case True
      with that \<open>\<not> Critical (ops ! i) \<Longrightarrow> attempted_or_blocked ops s i\<close> show ?thesis by simp
    next
      case False
      with that have "Suc i \<le> j" by simp
      with that h(2) show ?thesis by blast
    qed
    with h(2) show "?Q i s" by blast
  next
    fix i and s :: "'w exec_state"
    assume h: "i < n" "?Q (Suc i) s"
    then have "books ops (exec_op (ops ! i) i s)" using assms(3) by (auto intro: books_exec_op)
    moreover have "attempted_or_blocked ops (exec_op (ops ! i) i s) j"
      if "i \<le> j" "j < n" "\<not> Critical (ops ! j)" for j
    proof (cases "j = i")
      case True
      then show ?thesis by (simp add: attempted_exec_op)
    next
      case False
      with that have "Suc i \<le> j" by simp
      with that h(2) have "attempted_or_blocked ops s j" by blast
      then show ?thesis by (rule attempted_or_blocked_exec_op)
    qed
    moreover have "attempted_or_blocked ops (exec_op (ops ! i) i s) j"
      if "attempted_or_blocked ops st j" for j
      using that h(2) by (auto intro: attempted_or_blocked_exec_op)
    ultimately show "?Q i (exec_op (ops ! i) i s)" by blast
  qed
  then show ?thesis by simp
qed

section \<open>The default mode\<close>

lemma default_mode_summary:
  assumes "failFast rm" and "\<not> failFastExplicitlySet rm" and "wf_ledger (operations rm)"
    and "Execute rm w = (ret, rm', st)"
  shows "books (operations rm) st \<and>
         (\<forall>i<length (operations rm). attempted_or_blocked (operations rm) st i) \<and>
         (\<exists>t1 t2. invoked st = t1 @ t2 \<and>
            sorted_wrt (>) (map fst t1) \<and> (\<forall>(j, r)\<in>set t1. Critical (operations rm ! j)) \<and>
            sorted_wrt (>) (map fst t2) \<and> (\<forall>(j, r)\<in>set t2. \<not> Critical (operations rm ! j))) \<and>
         ret = fst (finish rm st)"
proof (cases "operations rm = []")
  case True
  with assms(4) have "st = init_state rm w" "ret = None" "rm' = rm" by (auto simp: Execute_def)
  with True books_init[of "operations rm" rm w] show ?thesis
    by (auto simp: init_state_def finish_def)
next
  case ne: False
  let ?ops = "operations rm" and ?st0 = "init_state rm w"
  obtain st1 where p1: "phase1 ?ops False (length ?ops) ?st0 = Inr st1"
    using phase1_default_total by blast
  with ne assms(1,2,4) have fin: "finish rm (phase2 ?ops (length ?ops) st1) = (ret, rm', st)"
    by (simp add: Execute_def Let_def)
  then have st: "st = phase2 ?ops (length ?ops) st1" by (simp add: finish_def)
  from phase1_attempts[OF p1 books_init] have
    b1: "books ?ops st1" and a1: "\<forall>i<length ?ops. Critical (?ops ! i) \<longrightarrow> attempted_or_blocked ?ops st1 i"
    by simp_all
  from phase2_attempts[OF b1 assms(3), of "length ?ops"] st have
    b2: "books ?ops st" and
    a2: "\<forall>i. attempted_or_blocked ?ops st1 i \<longrightarrow> attempted_or_blocked ?ops st i" and
    a3: "\<forall>i<length ?ops. \<not> Critical (?ops ! i) \<longrightarrow> attempted_or_blocked ?ops st i"
    by simp_all
  from a1 a2 a3 have all: "\<forall>i<length ?ops. attempted_or_blocked ?ops st i" by blast
  from phase1_trace_critical[OF p1] obtain t1 where
    t1: "invoked st1 = t1" "sorted_wrt (>) (map fst t1)" "\<forall>(j, r)\<in>set t1. Critical (?ops ! j)"
    by (fastforce simp: init_state_def)
  from phase2_trace_noncritical[of ?ops "length ?ops" st1] st t1(1) obtain t2 where
    t2: "invoked st = t1 @ t2" "sorted_wrt (>) (map fst t2)" "\<forall>(j, r)\<in>set t2. \<not> Critical (?ops ! j)"
    by fastforce
  from fin st have "ret = fst (finish rm st)" by simp
  with b2 all t1 t2 show ?thesis by blast
qed

text \<open>Two critical operations, the first depending on the second; and two non-critical
  operations, the first depending on the second.\<close>

definition ledger_critical_dep :: "MockGitRepo RollbackManager" where
  "ledger_critical_dep =
     the (AddDependency
            (snd (AddWorktreeCleanup (snd (AddWorktreeCleanup (NewRollbackManager mockRepo) ''/a'')) ''/b''))
            0 1)"

definition ledger_noncritical_dep :: "MockGitRepo RollbackManager" where
  "ledger_noncritical_dep =
     the (AddDependency
            (snd (AddBranchCleanup (snd (AddBranchCleanup (NewRollbackManager mockRepo) ''a'')) ''b''))
            0 1)"

text \<open>
  The claim C2 as stated fails on the code. In the first ledger the failure of the second
  critical operation blocks the first critical operation, which depends on it: it is not
  attempted in phase 1. In the second ledger no dependency fails in phase 1, and still the
  first non-critical operation is not run in phase 2, because the operation it depends on
  failed earlier in phase 2.
\<close>

theorem default_mode_continues_counterexample:
  "failFast ledger_critical_dep \<and> \<not> failFastExplicitlySet ledger_critical_dep \<and>
   Critical (operations ledger_critical_dep ! 0) \<and> Critical (operations ledger_critical_dep ! 1) \<and>
   invoked (snd (snd (Execute ledger_critical_dep (mock_world (Some boom) None)))) = [(1, Some boom)] \<and>
   failFast ledger_noncritical_dep \<and> \<not> failFastExplicitlySet ledger_noncritical_dep \<and>
   \<not> Critical (operations ledger_noncritical_dep ! 0) \<and> DependsOn (operations ledger_noncritical_dep ! 0) = [1] \<and>
   invoked (snd (snd (Execute ledger_noncritical_dep (mock_world None (Some boom))))) = [(1, Some boom)]"
  by (simp add: ledger_critical_dep_def ledger_noncritical_dep_def api_defs exec_defs Let_def)

text \<open>
  C2, amended. With \<open>failFast\<close> at its default (true, not explicitly set), a failing
  action never stops \<open>Execute\<close>: every operation of the ledger, critical or not, is
  attempted unless the action of one of its declared dependencies failed; the calls of the
  critical operations (phase 1) all come before the calls of the non-critical ones
  (phase 2); the collected errors are exactly the wrapped errors of the failed calls, in
  order; and \<open>Execute\<close> returns the aggregate error over them, or \<open>nil\<close> when there are
  none.
\<close>

theorem default_mode_continues:
  assumes "failFast rm" and "\<not> failFastExplicitlySet rm" and "wf_ledger (operations rm)"
    and "Execute rm w = (ret, rm', st)"
  shows "(\<forall>i<length (operations rm).
            i \<in> fst ` set (invoked st) \<or>
            (\<exists>j e. (j, Some e) \<in> set (invoked st) \<and> int j \<in> set (DependsOn (operations rm ! i)))) \<and>
         (\<exists>t1 t2. invoked st = t1 @ t2 \<and>
            (\<forall>(j, r)\<in>set t1. Critical (operations rm ! j)) \<and>
            (\<forall>(j, r)\<in>set t2. \<not> Critical (operations rm ! j))) \<and>
         errors st = List.map_filter (op_error (operations rm)) (invoked st) \<and>
         ret = (if errors st = [] then None
                else Some (FileSystemError ''rollback'' []
                            (''rollback completed with '' @ show_nat (length (errors st)) @ '' errors'')
                            (Some (ErrorList ''errors'' (errors st)))))"
proof -
  let ?ops = "operations rm"
  from default_mode_summary[OF assms] have
    b: "books ?ops st" and
    a: "\<forall>i<length ?ops. attempted_or_blocked ?ops st i" and
    t: "\<exists>t1 t2. invoked st = t1 @ t2 \<and>
            sorted_wrt (>) (map fst t1) \<and> (\<forall>(j, r)\<in>set t1. Critical (?ops ! j)) \<and>
            sorted_wrt (>) (map fst t2) \<and> (\<forall>(j, r)\<in>set t2. \<not> Critical (?ops ! j))" and
    f: "ret = fst (finish rm st)"
    by blast+
  have 1: "i \<in> fst ` set (invoked st) \<or>
           (\<exists>j e. (j, Some e) \<in> set (invoked st) \<and> int j \<in> set (DependsOn (?ops ! i)))"
    if "i < length ?ops" for i
  proof (cases "i \<in> fst ` set (invoked st)")
    case True
    then show ?thesis by simp
  next
    case False
    with a that have "shouldSkipOperation (?ops ! i) (failed st)" by (auto simp: attempted_or_blocked_def)
    then obtain d where d: "d \<in> set (DependsOn (?ops ! i))" "d \<in> failed st"
      by (auto simp: shouldSkipOperation_def list_ex_iff)
    from failed_is_invoked[OF b assms(3) d(2)] d(1) show ?thesis by blast
  qed
  from t have 2: "\<exists>t1 t2. invoked st = t1 @ t2 \<and>
            (\<forall>(j, r)\<in>set t1. Critical (?ops ! j)) \<and> (\<forall>(j, r)\<in>set t2. \<not> Critical (?ops ! j))"
    by blast
  from b have 3: "errors st = List.map_filter (op_error ?ops) (invoked st)" by (simp add: books_def)
  from f have 4: "ret = (if errors st = [] then None
                else Some (FileSystemError ''rollback'' []
                            (''rollback completed with '' @ show_nat (length (errors st)) @ '' errors'')
                            (Some (ErrorList ''errors'' (errors st)))))"
    by (auto simp: finish_def)
  from 1 2 3 4 show ?thesis by blast
qed


theorem default_mode_continues_witness:
  "invoked (snd (snd (Execute ledger_wt_branch (mock_world (Some boom) None)))) = [(0, Some boom), (1, None)] \<and>
   fst (Execute ledger_wt_branch (mock_world (Some boom) None)) =
     Some (FileSystemError ''rollback'' [] ''rollback completed with 1 errors''
            (Some (ErrorList ''errors'' [Wrapped ''Remove worktree at /worktree'' boom])))"
  using default_mode_continues[of ledger_wt_branch "mock_world (Some boom) None"
          "fst (Execute ledger_wt_branch (mock_world (Some boom) None))"
          "fst (snd (Execute ledger_wt_branch (mock_world (Some boom) None)))"
          "snd (snd (Execute ledger_wt_branch (mock_world (Some boom) None)))"]
  by (simp add: ledger_wt_branch_def api_defs exec_defs Let_def wf_ledger_def show_nat.simps
        op_error_def map_filter_simps)

section \<open>The order of a successful rollback\<close>

lemma descending_unique:
  assumes "sorted_wrt (>) xs" and "set xs = {i. i < n \<and> P i}"
  shows "xs = filter P (rev [0..<n])"
proof -
  have "rev xs = filter P [0..<n]"
  proof (rule sorted_distinct_set_unique)
    from assms(1) have "sorted_wrt (<) (rev xs)" by (simp add: sorted_wrt_rev)
    then show "sorted (rev xs)" "distinct (rev xs)" by (simp_all add: strict_sorted_iff)
    show "sorted (filter P [0..<n])" by (rule sorted_wrt_filter) simp
    show "distinct (filter P [0..<n])" by simp
    from assms(2) show "set (rev xs) = set (filter P [0..<n])" by auto
  qed
  then have "rev (rev xs) = rev (filter P [0..<n])" by simp
  then show ?thesis by (simp add: rev_filter)
qed

lemma map_filter_empty_iff: "List.map_filter f xs = [] \<longleftrightarrow> (\<forall>x\<in>set xs. f x = None)"
  by (induction xs) (auto simp: map_filter_simps split: option.splits)

lemma successful_order:
  assumes "failFast rm" and "\<not> failFastExplicitlySet rm" and "wf_ledger (operations rm)"
    and "Execute rm w = (None, rm', st)"
  shows "invoked st =
           map (\<lambda>i. (i, None))
             (filter (\<lambda>i. Critical (operations rm ! i)) (rev [0..<length (operations rm)]) @
              filter (\<lambda>i. \<not> Critical (operations rm ! i)) (rev [0..<length (operations rm)]))"
proof -
  let ?ops = "operations rm" and ?n = "length (operations rm)"
  from default_mode_summary[OF assms] obtain t1 t2 where
    b: "books ?ops st" and
    a: "\<forall>i<?n. attempted_or_blocked ?ops st i" and
    t: "invoked st = t1 @ t2"
       "sorted_wrt (>) (map fst t1)" "\<forall>(j, r)\<in>set t1. Critical (?ops ! j)"
       "sorted_wrt (>) (map fst t2)" "\<forall>(j, r)\<in>set t2. \<not> Critical (?ops ! j)" and
    f: "None = fst (finish rm st)"
    by blast
  from f have "errors st = []" by (auto simp: finish_def split: if_splits)
  with b have "List.map_filter (op_error ?ops) (invoked st) = []" by (simp add: books_def)
  then have "\<forall>c\<in>set (invoked st). op_error ?ops c = None"
    by (simp add: map_filter_empty_iff)
  then have none: "\<forall>c\<in>set (invoked st). snd c = None" by (simp add: op_error_def)
  with b have "failed st = {}" by (force simp: books_def)
  with a have all: "\<forall>i<?n. i \<in> fst ` set (invoked st)"
    by (simp add: attempted_or_blocked_def shouldSkipOperation_def list_ex_iff)
  from b have bound: "fst ` set (invoked st) \<subseteq> {..<?n}" by (simp add: books_def)
  have "set (map fst t1) = {i. i < ?n \<and> Critical (?ops ! i)}"
  proof (intro equalityI subsetI)
    fix i assume "i \<in> set (map fst t1)"
    then obtain r where r: "(i, r) \<in> set t1" by auto
    with t(3) have "Critical (?ops ! i)" by auto
    moreover from r t(1) bound have "i < ?n" by force
    ultimately show "i \<in> {i. i < ?n \<and> Critical (?ops ! i)}" by simp
  next
    fix i assume "i \<in> {i. i < ?n \<and> Critical (?ops ! i)}"
    then have i: "i < ?n" "Critical (?ops ! i)" by simp_all
    with all obtain r where "(i, r) \<in> set (invoked st)" by force
    with t(1) have "(i, r) \<in> set t1 \<or> (i, r) \<in> set t2" by simp
    with t(5) i(2) have "(i, r) \<in> set t1" by auto
    then show "i \<in> set (map fst t1)" by force
  qed
  from descending_unique[OF t(2) this]
  have 1: "map fst t1 = filter (\<lambda>i. Critical (?ops ! i)) (rev [0..<?n])" .
  have "set (map fst t2) = {i. i < ?n \<and> \<not> Critical (?ops ! i)}"
  proof (intro equalityI subsetI)
    fix i assume "i \<in> set (map fst t2)"
    then obtain r where r: "(i, r) \<in> set t2" by auto
    with t(5) have "\<not> Critical (?ops ! i)" by auto
    moreover from r t(1) bound have "i < ?n" by force
    ultimately show "i \<in> {i. i < ?n \<and> \<not> Critical (?ops ! i)}" by simp
  next
    fix i assume "i \<in> {i. i < ?n \<and> \<not> Critical (?ops ! i)}"
    then have i: "i < ?n" "\<not> Critical (?ops ! i)" by simp_all
    with all obtain r where "(i, r) \<in> set (invoked st)" by force
    with t(1) have "(i, r) \<in> set t1 \<or> (i, r) \<in> set t2" by simp
    with t(3) i(2) have "(i, r) \<in> set t2" by auto
    then show "i \<in> set (map fst t2)" by force
  qed
  from descending_unique[OF t(4) this]
  have 2: "map fst t2 = filter (\<lambda>i. \<not> Critical (?ops ! i)) (rev [0..<?n])" .
  from none have "invoked st = map (\<lambda>i. (i, None)) (map fst (invoked st))"
    by (induction "invoked st") (auto simp: map_idI prod_eq_iff)
  with t(1) 1 2 show ?thesis by simp
qed


text \<open>The ledger of \<open>TestRollbackManager_Execute\<close>: worktree, branch, worktree.\<close>

definition ledger_wt_branch_wt :: "MockGitRepo RollbackManager" where
  "ledger_wt_branch_wt =
     snd (AddWorktreeCleanup
            (snd (AddBranchCleanup
                    (snd (AddWorktreeCleanup (NewRollbackManager mockRepo) ''/worktree1''))
                    ''branch1''))
            ''/worktree2'')"

text \<open>
  The claim C4 as stated fails on the code: with flags critical, non-critical, critical
  the successful order is C, A, B, since the critical operations are all run first.
\<close>

theorem successful_rollback_order_counterexample:
  "failFast ledger_wt_branch_wt \<and> \<not> failFastExplicitlySet ledger_wt_branch_wt \<and>
   map Description (operations ledger_wt_branch_wt) =
     [''Remove worktree at /worktree1'', ''Delete branch branch1'', ''Remove worktree at /worktree2''] \<and>
   fst (Execute ledger_wt_branch_wt (mock_world None None)) = None \<and>
   invoked (snd (snd (Execute ledger_wt_branch_wt (mock_world None None)))) =
     [(2, None), (0, None), (1, None)]"
  by (simp add: ledger_wt_branch_wt_def api_defs exec_defs Let_def)

text \<open>
  C4, amended. For a ledger of three operations appended in the order A, B, C, a successful
  \<open>Execute\<close> under default settings invokes the critical operations in reverse order of
  insertion and then the non-critical ones in reverse order of insertion, each exactly
  once; when the three operations have the same critical flag the order is C, B, A.
\<close>

theorem successful_rollback_order:
  assumes "failFast rm" and "\<not> failFastExplicitlySet rm" and "wf_ledger (operations rm)"
    and "length (operations rm) = 3" and "Execute rm w = (None, rm', st)"
  shows "map fst (invoked st) =
           filter (\<lambda>i. Critical (operations rm ! i)) [2, 1, 0] @
           filter (\<lambda>i. \<not> Critical (operations rm ! i)) [2, 1, 0] \<and>
         (\<forall>c\<in>set (invoked st). snd c = None) \<and>
         (Critical (operations rm ! 0) = Critical (operations rm ! 1) \<and>
          Critical (operations rm ! 1) = Critical (operations rm ! 2) \<longrightarrow>
            map fst (invoked st) = [2, 1, 0])"
proof -
  have r: "rev [0..<length (operations rm)] = [2, 1, 0]"
    using assms(4) by (simp add: numeral_3_eq_3 upt_rec)
  from successful_order[OF assms(1,2,3,5)] r
  have i: "invoked st =
           map (\<lambda>i. (i, None))
             (filter (\<lambda>i. Critical (operations rm ! i)) [2, 1, 0] @
              filter (\<lambda>i. \<not> Critical (operations rm ! i)) [2, 1, 0])"
    by simp
  have 1: "map fst (invoked st) =
           filter (\<lambda>i. Critical (operations rm ! i)) [2, 1, 0] @
           filter (\<lambda>i. \<not> Critical (operations rm ! i)) [2, 1, 0]"
    by (subst i) (simp add: comp_def del: filter.simps)
  have 2: "\<forall>c\<in>set (invoked st). snd c = None"
    by (subst i) (auto simp del: filter.simps)
  from 1 have 3: "Critical (operations rm ! 0) = Critical (operations rm ! 1) \<and>
          Critical (operations rm ! 1) = Critical (operations rm ! 2) \<longrightarrow>
            map fst (invoked st) = [2, 1, 0]"
    by auto
  from 1 2 3 show ?thesis by blast
qed

theorem successful_rollback_order_witness:
  "map fst (invoked (snd (snd (Execute ledger_wt_branch_wt (mock_world None None))))) = [2, 0, 1]"
  using successful_rollback_order[of ledger_wt_branch_wt "mock_world None None"
          "fst (snd (Execute ledger_wt_branch_wt (mock_world None None)))"
          "snd (snd (Execute ledger_wt_branch_wt (mock_world None None)))"]
  by (simp add: ledger_wt_branch_wt_def api_defs exec_defs Let_def wf_ledger_def)

section \<open>Nothing runs after the failure of a dependency\<close>

definition failures_marked :: "'w RollbackOperation list \<Rightarrow> 'w exec_state \<Rightarrow> bool" where
  "failures_marked ops st = (\<forall>y e. (y, Some e) \<in> set (invoked st) \<longrightarrow> ID (ops ! y) \<in> failed st)"

definition not_after_failure :: "'w RollbackOperation list \<Rightarrow> 'w exec_state \<Rightarrow> bool" where
  "not_after_failure ops st =
     (\<forall>pre y e post. invoked st = pre @ (y, Some e) # post \<longrightarrow>
        (\<forall>c\<in>set post. ID (ops ! y) \<notin> set (DependsOn (ops ! fst c))))"

lemma snoc_split:
  assumes "xs @ [x] = pre @ c # post"
  shows "(post = [] \<and> pre = xs \<and> c = x) \<or> (\<exists>post'. post = post' @ [x] \<and> xs = pre @ c # post')"
proof (cases post rule: rev_cases)
  case Nil
  with assms show ?thesis by simp
next
  case (snoc post' z)
  with assms have "xs @ [x] = (pre @ c # post') @ [z]" by simp
  then have "xs = pre @ c # post'" "x = z" by simp_all
  with snoc show ?thesis by simp
qed

lemma not_after_failure_exec_op:
  assumes "not_after_failure ops st" and "failures_marked ops st"
    and "\<not> shouldSkipOperation (ops ! i) (failed st)"
  shows "not_after_failure ops (exec_op (ops ! i) i st) \<and> failures_marked ops (exec_op (ops ! i) i st)"
proof -
  let ?st' = "exec_op (ops ! i) i st"
  from exec_op_grows[of st "ops ! i" i] obtain r where
    g: "failed st \<subseteq> failed ?st'" "invoked ?st' = invoked st @ [(i, r)]" by blast
  have fm: "failures_marked ops ?st'"
    using assms(2) by (cases rule: exec_op_cases[of "ops ! i" st i]) (auto simp: failures_marked_def)
  have "ID (ops ! y) \<notin> set (DependsOn (ops ! fst c))"
    if s: "invoked ?st' = pre @ (y, Some e) # post" and c: "c \<in> set post" for pre y e post c
  proof -
    from s g(2) have "invoked st @ [(i, r)] = pre @ (y, Some e) # post" by simp
    from snoc_split[OF this] c obtain post' where
      p: "post = post' @ [(i, r)]" "invoked st = pre @ (y, Some e) # post'" by auto
    show ?thesis
    proof (cases "c \<in> set post'")
      case True
      with p(2) assms(1) show ?thesis by (auto simp: not_after_failure_def)
    next
      case False
      with c p(1) have "fst c = i" by auto
      moreover from p(2) assms(2) have "ID (ops ! y) \<in> failed st" by (auto simp: failures_marked_def)
      ultimately show ?thesis using assms(3)
        by (auto simp: shouldSkipOperation_def list_ex_iff)
    qed
  qed
  then have "not_after_failure ops ?st'" unfolding not_after_failure_def by blast
  with fm show ?thesis by simp
qed

lemmas exec_op_keeps_order =
  not_after_failure_exec_op[THEN conjunct1] not_after_failure_exec_op[THEN conjunct2]

lemma mark_unreachable_fields:
  "invoked (mark_unreachable ops nr st) = invoked st \<and>
   executed (mark_unreachable ops nr st) = executed st \<and>
   world (mark_unreachable ops nr st) = world st \<and>
   failed (mark_unreachable ops nr st) = failed st \<union> (\<lambda>i. ID (ops ! i)) ` set nr \<and>
   errors (mark_unreachable ops nr st) =
     errors st @ map (\<lambda>i. DependencyConstraint (Description (ops ! i))) nr"
  by (induction nr arbitrary: st) (auto simp: record_failure_def)

lemma all_none_not_after:
  assumes "\<forall>c\<in>set (invoked st). snd c = None"
  shows "not_after_failure ops st \<and> failures_marked ops st"
  using assms by (fastforce simp: not_after_failure_def failures_marked_def)

lemma Execute_not_after_failure:
  assumes "Execute rm w = (ret, rm', st)"
  shows "not_after_failure (operations rm) st"
proof (cases "operations rm = []")
  case True
  with assms show ?thesis by (auto simp: Execute_def init_state_def not_after_failure_def)
next
  case ne: False
  let ?ops = "operations rm" and ?st0 = "init_state rm w"
  let ?I = "\<lambda>s. not_after_failure ?ops s \<and> failures_marked ?ops s"
  have i0: "?I ?st0" by (rule all_none_not_after) (simp add: init_state_def)
  have p2: "?I (phase2 ?ops n s)" if "?I s" for n s
    by (rule phase2_rule[where Q = "\<lambda>_. ?I"]) (use that in \<open>auto intro: exec_op_keeps_order\<close>)
  show ?thesis
  proof (cases "failFast rm")
    case False
    with ne assms have st: "st = dependency_loop ?ops [0..<length ?ops] ?st0"
      by (simp add: Execute_def Let_def finish_def)
    have "?I (dependency_loop ?ops [0..<length ?ops] ?st0) \<or>
          (\<exists>s nr. ?I s \<and> nr \<noteq> [] \<and>
             (\<forall>i\<in>set nr. \<not> shouldSkipOperation (?ops ! i) (failed s) \<and> \<not> canExecute (?ops ! i) s) \<and>
             dependency_loop ?ops [0..<length ?ops] ?st0 = mark_unreachable ?ops nr s)"
      by (rule dependency_loop_rule[where J = "\<lambda>_. ?I"]) (use i0 in \<open>auto intro: exec_op_keeps_order\<close>)
    then show ?thesis
    proof
      assume "?I (dependency_loop ?ops [0..<length ?ops] ?st0)"
      with st show ?thesis by simp
    next
      assume "\<exists>s nr. ?I s \<and> nr \<noteq> [] \<and>
             (\<forall>i\<in>set nr. \<not> shouldSkipOperation (?ops ! i) (failed s) \<and> \<not> canExecute (?ops ! i) s) \<and>
             dependency_loop ?ops [0..<length ?ops] ?st0 = mark_unreachable ?ops nr s"
      then obtain s nr where "?I s" "st = mark_unreachable ?ops nr s" using st by auto
      then show ?thesis
        by (simp add: not_after_failure_def mark_unreachable_fields)
    qed
  next
    case ff: True
    show ?thesis
    proof (cases "failFastExplicitlySet rm")
      case False
      obtain st1 where p1: "phase1 ?ops False (length ?ops) ?st0 = Inr st1"
        using phase1_default_total by blast
      with ne ff False assms have st: "st = phase2 ?ops (length ?ops) st1"
        by (simp add: Execute_def Let_def finish_def)
      have "?I st1"
        by (rule phase1_rule[where Q = "\<lambda>_. ?I", OF _ _ _ p1])
           (use i0 in \<open>auto intro: exec_op_keeps_order\<close>)
      from p2[OF this] st show ?thesis by simp
    next
      case ex: True
      show ?thesis
      proof (cases "phase1 ?ops True (length ?ops) ?st0")
        case (Inl a)
        then obtain e s where p1: "phase1 ?ops True (length ?ops) ?st0 = Inl (e, s)" by (cases a) auto
        with ne ff ex assms have r: "st = s" by (auto simp: Execute_def Let_def)
        from phase1_explicit_Inl[OF p1] obtain k e' tr where
          k: "invoked s = tr @ [(k, Some e')]" "\<forall>(j, r)\<in>set tr. r = None"
          by (fastforce simp: init_state_def)
        have "post = []" if "invoked s = pre @ (y, Some e) # post" for pre y e post
        proof (rule ccontr)
          assume "post \<noteq> []"
          with snoc_split[of tr "(k, Some e')" pre "(y, Some e)" post] that k(1)
          have "(y, Some e) \<in> set tr" by auto
          with k(2) show False by auto
        qed
        then have "not_after_failure ?ops s" unfolding not_after_failure_def by fastforce
        with r show ?thesis by simp
      next
        case (Inr st1)
        from phase1_explicit_Inr[OF Inr] have e1: "errors st1 = []" "\<forall>c\<in>set (invoked st1). snd c = None"
          by (auto simp: init_state_def)
        from Inr ne ff ex assms e1 have st: "st = phase2 ?ops (length ?ops) st1"
          by (simp add: Execute_def Let_def finish_def)
        from p2[OF all_none_not_after[OF e1(2)]] st show ?thesis by simp
      qed
    qed
  qed
qed

section \<open>The dependency-aware mode\<close>

text \<open>An operation is only run after all the operations it depends on have run with
  success.\<close>

definition after_dependencies :: "'w RollbackOperation list \<Rightarrow> 'w exec_state \<Rightarrow> bool" where
  "after_dependencies ops st =
     (\<forall>pre c post. invoked st = pre @ c # post \<longrightarrow>
        (\<forall>d\<in>set (DependsOn (ops ! fst c)). \<exists>j. (j, None) \<in> set pre \<and> ID (ops ! j) = d))"

text \<open>The invariant of the dependency loop, over the operations still pending.\<close>

definition dep_inv :: "'w RollbackOperation list \<Rightarrow> nat list \<Rightarrow> 'w exec_state \<Rightarrow> bool" where
  "dep_inv ops pending st =
     (books ops st \<and> after_dependencies ops st \<and>
      distinct (map fst (invoked st)) \<and> distinct pending \<and>
      set pending \<inter> fst ` set (invoked st) = {} \<and> set pending \<subseteq> {..<length ops} \<and>
      (\<forall>i<length ops. i \<in> fst ` set (invoked st) \<or> i \<in> set pending \<or>
          shouldSkipOperation (ops ! i) (failed st)))"

lemma dep_inv_init: "dep_inv ops [0..<length ops] (init_state rm w)"
  using books_init[of ops rm w]
  by (auto simp: dep_inv_def after_dependencies_def init_state_def)

lemma dep_inv_skip:
  assumes "dep_inv ops (a @ i # b) st" and "shouldSkipOperation (ops ! i) (failed st)"
  shows "dep_inv ops (a @ b) st"
proof -
  from assms have "\<forall>j<length ops. j \<in> fst ` set (invoked st) \<or> j \<in> set (a @ b) \<or>
          shouldSkipOperation (ops ! j) (failed st)"
    unfolding dep_inv_def by (metis Un_iff set_ConsD set_append)
  with assms(1) show ?thesis by (auto simp: dep_inv_def)
qed

lemma dep_inv_exec:
  assumes inv: "dep_inv ops (a @ i # b) st" and ns: "\<not> shouldSkipOperation (ops ! i) (failed st)"
    and ce: "canExecute (ops ! i) st"
  shows "dep_inv ops (a @ b) (exec_op (ops ! i) i st)"
proof -
  let ?st' = "exec_op (ops ! i) i st"
  from inv have b: "books ops st" and ad: "after_dependencies ops st"
    and d1: "distinct (map fst (invoked st))" and d2: "distinct (a @ i # b)"
    and dj: "set (a @ i # b) \<inter> fst ` set (invoked st) = {}" and bd: "set (a @ i # b) \<subseteq> {..<length ops}"
    and cover: "\<forall>j<length ops. j \<in> fst ` set (invoked st) \<or> j \<in> set (a @ i # b) \<or>
          shouldSkipOperation (ops ! j) (failed st)"
    by (simp_all add: dep_inv_def)
  from bd have i: "i < length ops" by simp
  from exec_op_grows[of st "ops ! i" i] obtain r where
    g: "failed st \<subseteq> failed ?st'" "invoked ?st' = invoked st @ [(i, r)]" by blast
  have 1: "books ops ?st'" using b i by (rule books_exec_op)
  have deps: "\<exists>j. (j, None) \<in> set (invoked st) \<and> ID (ops ! j) = d" if "d \<in> set (DependsOn (ops ! i))" for d
  proof -
    from ce that have "d \<in> executed st \<or> d \<in> failed st" by (auto simp: canExecute_def list_all_iff)
    moreover from ns that have "d \<notin> failed st" by (auto simp: shouldSkipOperation_def list_ex_iff)
    ultimately have "d \<in> executed st" by simp
    with b show ?thesis by (auto simp: books_def)
  qed
  have "\<exists>j. (j, None) \<in> set pre \<and> ID (ops ! j) = d"
    if s: "invoked ?st' = pre @ c # post" and d: "d \<in> set (DependsOn (ops ! fst c))" for pre c post d
  proof -
    from s g(2) have "invoked st @ [(i, r)] = pre @ c # post" by simp
    from snoc_split[OF this] show ?thesis
    proof
      assume "post = [] \<and> pre = invoked st \<and> c = (i, r)"
      with deps[of d] d show ?thesis by simp
    next
      assume "\<exists>post'. post = post' @ [(i, r)] \<and> invoked st = pre @ c # post'"
      then obtain post' where "invoked st = pre @ c # post'" by blast
      with ad d show ?thesis unfolding after_dependencies_def by blast
    qed
  qed
  then have 2: "after_dependencies ops ?st'" unfolding after_dependencies_def by blast
  from dj have "i \<notin> fst ` set (invoked st)" by auto
  with d1 g(2) have 3: "distinct (map fst (invoked ?st'))" by simp
  from d2 have 4: "distinct (a @ b)" by simp
  from d2 dj g(2) have 5: "set (a @ b) \<inter> fst ` set (invoked ?st') = {}" by auto
  from bd have 6: "set (a @ b) \<subseteq> {..<length ops}" by simp
  have 7: "j \<in> fst ` set (invoked ?st') \<or> j \<in> set (a @ b) \<or> shouldSkipOperation (ops ! j) (failed ?st')"
    if "j < length ops" for j
  proof -
    from cover that consider "j \<in> fst ` set (invoked st)" | "j \<in> set (a @ b)" | "j = i"
      | "shouldSkipOperation (ops ! j) (failed st)" by auto
    then show ?thesis
    proof cases
      case 4
      with g(1) show ?thesis by (auto intro: shouldSkip_mono)
    qed (use g(2) in auto)
  qed
  from 1 2 3 4 5 6 7 show ?thesis unfolding dep_inv_def by blast
qed

lemma dependency_loop_end:
  "\<exists>s nr. dep_inv ops nr s \<and>
     (\<forall>i\<in>set nr. \<not> shouldSkipOperation (ops ! i) (failed s) \<and> \<not> canExecute (ops ! i) s) \<and>
     dependency_loop ops [0..<length ops] (init_state rm w) = mark_unreachable ops nr s"
proof -
  let ?l = "dependency_loop ops [0..<length ops] (init_state rm w)"
  have "dep_inv ops [] ?l \<or>
        (\<exists>s nr. dep_inv ops nr s \<and> nr \<noteq> [] \<and>
           (\<forall>i\<in>set nr. \<not> shouldSkipOperation (ops ! i) (failed s) \<and> \<not> canExecute (ops ! i) s) \<and>
           ?l = mark_unreachable ops nr s)"
    by (rule dependency_loop_rule[where J = "dep_inv ops"])
       (auto intro: dep_inv_init dep_inv_skip dep_inv_exec)
  then show ?thesis
  proof
    assume "dep_inv ops [] ?l"
    then show ?thesis by (intro exI[of _ ?l] exI[of _ "[]"]) simp
  qed blast
qed


lemma blocked_by_failed_dependency:
  assumes inv: "dep_inv ops nr s" and wf: "wf_ledger ops"
    and y: "(y, Some e) \<in> set (invoked s)" and dep: "int y \<in> set (DependsOn (ops ! x))"
  shows "x \<notin> fst ` set (invoked s) \<and> shouldSkipOperation (ops ! x) (failed s)"
proof -
  from inv have b: "books ops s" and ad: "after_dependencies ops s"
    and d1: "distinct (map fst (invoked s))"
    by (simp_all add: dep_inv_def)
  from b y have yl: "y < length ops" by (force simp: books_def)
  have "x \<notin> fst ` set (invoked s)"
  proof
    assume "x \<in> fst ` set (invoked s)"
    then obtain r where "(x, r) \<in> set (invoked s)" by auto
    then obtain pre post where sp: "invoked s = pre @ (x, r) # post" by (auto dest: split_list)
    with ad have "\<forall>d\<in>set (DependsOn (ops ! fst (x, r))). \<exists>j. (j, None) \<in> set pre \<and> ID (ops ! j) = d"
      unfolding after_dependencies_def by blast
    with dep obtain j where j: "(j, None) \<in> set pre" "ID (ops ! j) = int y"
      by auto
    from j(1) sp have ji: "(j, None) \<in> set (invoked s)" by simp
    with b have "j < length ops" by (force simp: books_def)
    with j(2) wf have "j = y" by (simp add: wf_ledger_ID)
    with ji y d1 have "None = Some e" by (auto dest: eq_key_imp_eq_value)
    then show False by simp
  qed
  moreover from b y have "ID (ops ! y) \<in> failed s" by (auto simp: books_def)
  with wf yl dep have "shouldSkipOperation (ops ! x) (failed s)"
    by (auto simp: shouldSkipOperation_def list_ex_iff wf_ledger_ID)
  ultimately show ?thesis by simp
qed

lemma default_mode_order:
  assumes "failFast rm" and "\<not> failFastExplicitlySet rm" and "wf_ledger (operations rm)"
    and "Execute rm w = (ret, rm', st)"
  shows "sorted_wrt (\<lambda>a b. (Critical (operations rm ! a) \<and> \<not> Critical (operations rm ! b)) \<or>
                          (Critical (operations rm ! a) = Critical (operations rm ! b) \<and> b < a))
           (map fst (invoked st))"
proof -
  let ?ops = "operations rm"
  let ?R = "\<lambda>a b. (Critical (?ops ! a) \<and> \<not> Critical (?ops ! b)) \<or>
                   (Critical (?ops ! a) = Critical (?ops ! b) \<and> b < a)"
  from default_mode_summary[OF assms] obtain t1 t2 where
    t: "invoked st = t1 @ t2"
       "sorted_wrt (>) (map fst t1)" "\<forall>(j, r)\<in>set t1. Critical (?ops ! j)"
       "sorted_wrt (>) (map fst t2)" "\<forall>(j, r)\<in>set t2. \<not> Critical (?ops ! j)"
    by blast
  from t(3) have c1: "\<forall>a\<in>set (map fst t1). Critical (?ops ! a)" by auto
  from t(5) have c2: "\<forall>a\<in>set (map fst t2). \<not> Critical (?ops ! a)" by auto
  have "sorted_wrt ?R (map fst t1)"
    by (rule sorted_wrt_mono_rel[OF _ t(2)]) (use c1 in auto)
  moreover have "sorted_wrt ?R (map fst t2)"
    by (rule sorted_wrt_mono_rel[OF _ t(4)]) (use c2 in auto)
  ultimately have "sorted_wrt ?R (map fst t1 @ map fst t2)"
    using c1 c2 by (simp add: sorted_wrt_append)
  with t(1) show ?thesis by simp
qed


section \<open>Dependency skipping\<close>

text \<open>\<open>os.RemoveAll\<close> and \<open>os.Remove\<close> for the tests: the paths of the test ledgers do not
  exist, so \<open>RemoveAll\<close> returns \<open>nil\<close> and \<open>Remove\<close> reports "not exist".\<close>

definition mockOS :: "MockGitRepo OS" where
  "mockOS = \<lparr> RemoveAll = (\<lambda>path m. (None, m)), Remove = (\<lambda>path m. (Some ErrNotExist, m)) \<rparr>"

text \<open>The ledger of \<open>TestRollbackManager_DependencyTracking\<close> and
  \<open>TestRollbackManager_DependencySkipping\<close>: worktree, branch and file cleanup, the last
  two depending on the first.\<close>

definition ledger_dependencies :: "MockGitRepo RollbackManager" where
  "ledger_dependencies =
     the (AddDependency
       (the (AddDependency
          (snd (AddFileCleanup mockOS
             (snd (AddBranchCleanup
                (snd (AddWorktreeCleanup (NewRollbackManager mockRepo) ''/worktree''))
                ''branch''))
             ''/files''))
          1 0))
       2 0)"

text \<open>
  The claim C5 as stated fails on the code in mode A: the file cleanup (operation 2)
  depends on the worktree cleanup (operation 0), whose action fails, and yet the file
  cleanup is invoked, because phase 1 reaches it first.
\<close>

theorem dependency_skipping_counterexample:
  "failFast ledger_dependencies \<and> \<not> failFastExplicitlySet ledger_dependencies \<and>
   DependsOn (operations ledger_dependencies ! 2) = [0] \<and>
   invoked (snd (snd (Execute ledger_dependencies (mock_world (Some boom) None)))) =
     [(2, None), (0, Some boom)]"
  by (simp add: ledger_dependencies_def api_defs exec_defs Let_def AddFileCleanup_def mockOS_def)

text \<open>
  C5, amended. Let X depend on Y (\<open>AddDependency(X, Y)\<close> was recorded) and let the action
  of Y fail during \<open>Execute\<close>. In every mode X's action is not invoked after that
  failure. In mode C (\<open>failFast = false\<close>) X's action is never invoked. In mode A
  (default \<open>failFast\<close>) X's action is never invoked when Y's turn comes before X's, that
  is when Y is critical and X is not, or when both have the same critical flag and X was
  appended before Y.
\<close>

theorem dependency_skipping:
  assumes "wf_ledger (operations rm)" and "Execute rm w = (ret, rm', st)"
    and "x < length (operations rm)"
    and "int y \<in> set (DependsOn (operations rm ! x))"
    and "(y, Some e) \<in> set (invoked st)"
  shows "(\<forall>pre post. invoked st = pre @ (y, Some e) # post \<longrightarrow> x \<notin> fst ` set post) \<and>
         (\<not> failFast rm \<longrightarrow> x \<notin> fst ` set (invoked st)) \<and>
         (failFast rm \<and> \<not> failFastExplicitlySet rm \<and>
          (Critical (operations rm ! y) \<or> \<not> Critical (operations rm ! x)) \<and>
          (Critical (operations rm ! x) = Critical (operations rm ! y) \<longrightarrow> x < y) \<longrightarrow>
            x \<notin> fst ` set (invoked st))"
proof -
  let ?ops = "operations rm"
  from assms(2,5) have ne: "?ops \<noteq> []" by (auto simp: Execute_def init_state_def)
  have naf: "not_after_failure ?ops st" using assms(2) by (rule Execute_not_after_failure)
  have yl: "y < length ?ops" and idy: "ID (?ops ! y) = int y"
  proof -
    have "fst ` set (invoked st) \<subseteq> {..<length ?ops}"
    proof (cases "failFast rm")
      case False
      with ne assms(2) have st: "st = dependency_loop ?ops [0..<length ?ops] (init_state rm w)"
        by (simp add: Execute_def Let_def finish_def)
      from dependency_loop_end[of ?ops rm w] st obtain s nr where
        "dep_inv ?ops nr s" "st = mark_unreachable ?ops nr s" by auto
      then show ?thesis by (simp add: dep_inv_def books_def mark_unreachable_fields)
    next
      case ff: True
      show ?thesis
      proof (cases "failFastExplicitlySet rm")
        case False
        from default_mode_summary[OF ff False assms(1,2)] show ?thesis by (simp add: books_def)
      next
        case ex: True
        show ?thesis
        proof (cases "phase1 ?ops True (length ?ops) (init_state rm w)")
          case (Inl a)
          then obtain er s where p1: "phase1 ?ops True (length ?ops) (init_state rm w) = Inl (er, s)"
            by (cases a) auto
          with ne ff ex assms(2) have "st = s" by (auto simp: Execute_def Let_def)
          with phase1_explicit_Inl[OF p1] show ?thesis by (fastforce simp: init_state_def)
        next
          case (Inr st1)
          from phase1_explicit_Inr[OF Inr] obtain tr where
            tr: "errors st1 = []" "invoked st1 = tr" "\<forall>(j, r)\<in>set tr. j < length ?ops"
            by (fastforce simp: init_state_def)
          from Inr ne ff ex assms(2) tr(1) have "st = phase2 ?ops (length ?ops) st1"
            by (simp add: Execute_def Let_def finish_def)
          with phase2_trace_noncritical[of ?ops "length ?ops" st1] tr(2,3) show ?thesis
            by fastforce
        qed
      qed
    qed
    with assms(5) show "y < length ?ops" by force
    with assms(1) show "ID (?ops ! y) = int y" by (simp add: wf_ledger_ID)
  qed
  have 1: "x \<notin> fst ` set post" if "invoked st = pre @ (y, Some e) # post" for pre post
  proof
    assume "x \<in> fst ` set post"
    then obtain c where "c \<in> set post" "fst c = x" by auto
    with naf that have "ID (?ops ! y) \<notin> set (DependsOn (?ops ! x))"
      unfolding not_after_failure_def by blast
    with idy assms(4) show False by simp
  qed
  have 2: "x \<notin> fst ` set (invoked st)" if "\<not> failFast rm"
  proof -
    from that ne assms(2) have st: "st = dependency_loop ?ops [0..<length ?ops] (init_state rm w)"
      by (simp add: Execute_def Let_def finish_def)
    from dependency_loop_end[of ?ops rm w] st obtain s nr where
      s: "dep_inv ?ops nr s" "st = mark_unreachable ?ops nr s" by auto
    with assms(5) have "(y, Some e) \<in> set (invoked s)" by (simp add: mark_unreachable_fields)
    from blocked_by_failed_dependency[OF s(1) assms(1) this assms(4)] s(2)
    show ?thesis by (simp add: mark_unreachable_fields)
  qed
  have 3: "x \<notin> fst ` set (invoked st)"
    if ff: "failFast rm" and ne: "\<not> failFastExplicitlySet rm"
      and c: "Critical (?ops ! y) \<or> \<not> Critical (?ops ! x)"
      and o: "Critical (?ops ! x) = Critical (?ops ! y) \<longrightarrow> x < y"
  proof
    assume "x \<in> fst ` set (invoked st)"
    from assms(5) obtain pre post where sp: "invoked st = pre @ (y, Some e) # post"
      by (auto dest: split_list)
    from c o have "x \<noteq> y" by auto
    with \<open>x \<in> fst ` set (invoked st)\<close> sp 1[OF sp] have xp: "x \<in> set (map fst pre)" by auto
    from default_mode_order[OF ff ne assms(1,2)] sp
    have "sorted_wrt (\<lambda>a b. (Critical (?ops ! a) \<and> \<not> Critical (?ops ! b)) \<or>
                          (Critical (?ops ! a) = Critical (?ops ! b) \<and> b < a))
            (map fst pre @ y # map fst post)"
      by simp
    then have "\<forall>a\<in>set (map fst pre). (Critical (?ops ! a) \<and> \<not> Critical (?ops ! y)) \<or>
                  (Critical (?ops ! a) = Critical (?ops ! y) \<and> y < a)"
      by (simp add: sorted_wrt_append)
    with xp have "(Critical (?ops ! x) \<and> \<not> Critical (?ops ! y)) \<or>
                  (Critical (?ops ! x) = Critical (?ops ! y) \<and> y < x)"
      by blast
    with c o show False by auto
  qed
  from 1 2 3 show ?thesis by blast
qed

theorem dependency_skipping_witness:
  "invoked (snd (snd (Execute (SetFailFast ledger_dependencies False) (mock_world (Some boom) None)))) =
     [(0, Some boom)] \<and>
   1 \<notin> fst ` set (invoked (snd (snd (Execute ledger_dependencies (mock_world (Some boom) None)))))"
  using dependency_skipping[of "SetFailFast ledger_dependencies False" "mock_world (Some boom) None"
          "fst (Execute (SetFailFast ledger_dependencies False) (mock_world (Some boom) None))"
          "fst (snd (Execute (SetFailFast ledger_dependencies False) (mock_world (Some boom) None)))"
          "snd (snd (Execute (SetFailFast ledger_dependencies False) (mock_world (Some boom) None)))"
          2 0 boom]
        dependency_skipping[of ledger_dependencies "mock_world (Some boom) None"
          "fst (Execute ledger_dependencies (mock_world (Some boom) None))"
          "fst (snd (Execute ledger_dependencies (mock_world (Some boom) None)))"
          "snd (snd (Execute ledger_dependencies (mock_world (Some boom) None)))"
          1 0 boom]
  by (simp add: ledger_dependencies_def api_defs exec_defs Let_def AddFileCleanup_def mockOS_def
        wf_ledger_def dependency_loop.simps)

section \<open>The dependency-aware mode does not read the critical flag\<close>

lemma exec_op_ignores_critical: "exec_op (op\<lparr>Critical := c\<rparr>) i st = exec_op op i st"
  by (simp add: exec_op_def call_action_def record_failure_def record_success_def
         split: prod.splits option.splits)

lemma run_pass_ignores_critical:
  assumes "set rem \<subseteq> {..<length ops}"
  shows "run_pass (map (\<lambda>op. op\<lparr>Critical := g op\<rparr>) ops) rem st p nr = run_pass ops rem st p nr"
  using assms
proof (induction rem arbitrary: st p nr)
  case Nil
  then show ?case by simp
next
  case (Cons i rest)
  then have i: "i < length ops" and r: "set rest \<subseteq> {..<length ops}" by simp_all
  from i show ?case
    by (simp add: run_pass_Cons Cons.IH[OF r] exec_op_ignores_critical
          shouldSkipOperation_def canExecute_def del: run_pass.simps(2))
qed

lemma mark_unreachable_ignores_critical:
  assumes "set nr \<subseteq> {..<length ops}"
  shows "mark_unreachable (map (\<lambda>op. op\<lparr>Critical := g op\<rparr>) ops) nr st = mark_unreachable ops nr st"
  using assms by (induction nr arbitrary: st) (simp_all add: record_failure_def)

lemma run_pass_subset:
  assumes "run_pass ops rem st p nr = (st', p', nr')"
  shows "set nr' \<subseteq> set nr \<union> set rem"
  by (rule run_pass_rule[where J = "\<lambda>pending s. set pending \<subseteq> set nr \<union> set rem", OF _ _ _ assms]) auto

lemma dependency_loop_ignores_critical:
  "set rem \<subseteq> {..<length ops} \<Longrightarrow>
     dependency_loop (map (\<lambda>op. op\<lparr>Critical := g op\<rparr>) ops) rem st = dependency_loop ops rem st"
proof (induction ops rem st rule: dependency_loop.induct)
  case (1 ops remaining st)
  let ?ops' = "map (\<lambda>op. op\<lparr>Critical := g op\<rparr>) ops"
  show ?case
  proof (cases "remaining = []")
    case True
    then show ?thesis by (simp add: dependency_loop.simps)
  next
    case False
    obtain st1 progress newRemaining
      where rp: "run_pass ops remaining st False [] = (st1, progress, newRemaining)"
      by (cases "run_pass ops remaining st False []") auto
    with "1.prems" have rp': "run_pass ?ops' remaining st False [] = (st1, progress, newRemaining)"
      by (simp add: run_pass_ignores_critical)
    from run_pass_subset[OF rp] "1.prems" have sub: "set newRemaining \<subseteq> {..<length ops}" by auto
    show ?thesis
    proof (cases "\<not> progress \<and> newRemaining \<noteq> []")
      case True
      with False rp rp' sub show ?thesis
        by (simp add: dependency_loop.simps[of ops remaining] dependency_loop.simps[of ?ops' remaining]
              mark_unreachable_ignores_critical)
    next
      case go: False
      from "1.IH"[OF False rp[symmetric] refl go sub] False rp rp' go show ?thesis
        by (auto simp: dependency_loop.simps[of ops remaining] dependency_loop.simps[of ?ops' remaining])
    qed
  qed
qed

lemma Execute_ignores_critical:
  assumes "\<not> failFast rm"
  shows "Execute (rm\<lparr>operations := map (\<lambda>op. op\<lparr>Critical := g op\<rparr>) (operations rm)\<rparr>) w = Execute rm w"
proof (cases "operations rm = []")
  case True
  then have "rm\<lparr>operations := map (\<lambda>op. op\<lparr>Critical := g op\<rparr>) (operations rm)\<rparr> = rm"
    by (cases rm) simp
  then show ?thesis by simp
next
  case False
  have "dependency_loop (map (\<lambda>op. op\<lparr>Critical := g op\<rparr>) (operations rm)) [0..<length (operations rm)] st =
        dependency_loop (operations rm) [0..<length (operations rm)] st" for st
    by (rule dependency_loop_ignores_critical) auto
  with False assms show ?thesis
    by (cases rm) (simp add: Execute_def Let_def finish_def clearOperations_def init_state_def)
qed


section \<open>What the dependency-aware mode does\<close>

lemma wf_ledger_ID_image:
  assumes "wf_ledger ops" and "S \<subseteq> {..<length ops}"
  shows "(\<lambda>j. ID (ops ! j)) ` S = int ` S"
  using assms by (auto simp: wf_ledger_ID image_iff subset_iff)

lemma dependency_mode_summary:
  assumes nff: "\<not> failFast rm" and wf: "wf_ledger (operations rm)"
    and ex: "Execute rm w = (ret, rm', st)"
  shows "\<exists>s nr. dep_inv (operations rm) nr s \<and>
           (\<forall>i\<in>set nr. \<not> shouldSkipOperation (operations rm ! i) (failed s) \<and>
                       \<not> canExecute (operations rm ! i) s) \<and>
           st = mark_unreachable (operations rm) nr s"
proof (cases "operations rm = []")
  case True
  with ex have "st = init_state rm w" by (auto simp: Execute_def)
  with True dep_inv_init[of "operations rm" rm w] show ?thesis
    by (intro exI[of _ "init_state rm w"] exI[of _ "[]"]) simp
next
  case False
  with nff ex have "st = dependency_loop (operations rm) [0..<length (operations rm)] (init_state rm w)"
    by (simp add: Execute_def Let_def finish_def)
  with dependency_loop_end[of "operations rm" rm w] show ?thesis by auto
qed


text \<open>The chain of \<open>TestRollbackManager_DependencySkipping\<close> made one step longer: a
  worktree cleanup, a branch cleanup depending on it, and a second branch cleanup
  depending on the first.\<close>

definition ledger_chain :: "MockGitRepo RollbackManager" where
  "ledger_chain =
     the (AddDependency
       (the (AddDependency
          (snd (AddBranchCleanup
             (snd (AddBranchCleanup
                (snd (AddWorktreeCleanup (SetFailFast (NewRollbackManager mockRepo) False) ''/worktree''))
                ''x''))
             ''z''))
          1 0))
       2 1)"

text \<open>
  The claim C3 as stated fails on the code: the worktree cleanup (operation 0) fails, the
  branch cleanup depending on it (operation 1) is skipped, but it is not marked failed:
  its ID is not put into \<open>failed\<close> and no error is recorded for it. (So operation 2, which
  depends on operation 1, is not skipped by propagation: it ends as unreachable.)
\<close>

theorem dependency_mode_counterexample:
  "\<not> failFast ledger_chain \<and>
   DependsOn (operations ledger_chain ! 1) = [0] \<and> DependsOn (operations ledger_chain ! 2) = [1] \<and>
   invoked (snd (snd (Execute ledger_chain (mock_world (Some boom) None)))) = [(0, Some boom)] \<and>
   failed (snd (snd (Execute ledger_chain (mock_world (Some boom) None)))) = {0, 2} \<and>
   errors (snd (snd (Execute ledger_chain (mock_world (Some boom) None)))) =
     [Wrapped ''Remove worktree at /worktree'' boom, DependencyConstraint ''Delete branch z'']"
  by (simp add: ledger_chain_def api_defs exec_defs Let_def dependency_loop.simps insert_commute)

text \<open>
  C3, amended. In mode C (\<open>failFast\<close> set to false) \<open>Execute\<close> does not read the critical
  flags. An operation is run only after every operation it depends on has been run, and
  has succeeded. An operation one of whose dependencies failed is skipped for good: it is
  never run, and it is not marked failed. When a pass makes no progress while operations
  remain, the loop ends and every remaining operation is marked failed with a "dependency
  constraint" error: these are operations with a dependency that was never attempted.
  Every operation of the ledger is run at most once, and is either run, or skipped because
  a dependency failed, or marked in this way.
\<close>

theorem dependency_mode:
  assumes "\<not> failFast rm" and "wf_ledger (operations rm)" and "Execute rm w = (ret, rm', st)"
  shows "Execute (rm\<lparr>operations := map (\<lambda>op. op\<lparr>Critical := g op\<rparr>) (operations rm)\<rparr>) w = Execute rm w \<and>
    (\<forall>pre c post. invoked st = pre @ c # post \<longrightarrow>
       (\<forall>d\<in>set (DependsOn (operations rm ! fst c)). \<exists>j. (j, None) \<in> set pre \<and> d = int j)) \<and>
    (\<forall>x y e. x < length (operations rm) \<and> int y \<in> set (DependsOn (operations rm ! x)) \<and>
        (y, Some e) \<in> set (invoked st) \<longrightarrow>
          x \<notin> fst ` set (invoked st) \<and> int x \<notin> failed st) \<and>
    (\<exists>nr. distinct (map fst (invoked st)) \<and> distinct nr \<and> set nr \<subseteq> {..<length (operations rm)} \<and>
       set nr \<inter> fst ` set (invoked st) = {} \<and>
       failed st = int ` {j. \<exists>e. (j, Some e) \<in> set (invoked st)} \<union> int ` set nr \<and>
       errors st = List.map_filter (op_error (operations rm)) (invoked st) @
                   map (\<lambda>i. DependencyConstraint (Description (operations rm ! i))) nr \<and>
       (\<forall>i\<in>set nr. \<exists>d\<in>set (DependsOn (operations rm ! i)). \<forall>c\<in>set (invoked st). d \<noteq> int (fst c)) \<and>
       (\<forall>i<length (operations rm).
          i \<in> fst ` set (invoked st) \<or> i \<in> set nr \<or>
          (\<exists>y e. (y, Some e) \<in> set (invoked st) \<and> int y \<in> set (DependsOn (operations rm ! i))))) \<and>
    (\<forall>remaining s s1 nr. remaining \<noteq> [] \<and> nr \<noteq> [] \<and>
        run_pass (operations rm) remaining s False [] = (s1, False, nr) \<longrightarrow>
          dependency_loop (operations rm) remaining s = mark_unreachable (operations rm) nr s1)"
proof -
  let ?ops = "operations rm"
  from dependency_mode_summary[OF assms] obtain s nr where
    inv: "dep_inv ?ops nr s" and
    stuck: "\<forall>i\<in>set nr. \<not> shouldSkipOperation (?ops ! i) (failed s) \<and> \<not> canExecute (?ops ! i) s" and
    st: "st = mark_unreachable ?ops nr s"
    by blast
  note wf = assms(2)
  from inv have b: "books ?ops s" and ad: "after_dependencies ?ops s"
    and d1: "distinct (map fst (invoked s))" and d2: "distinct nr"
    and dj: "set nr \<inter> fst ` set (invoked s) = {}" and bd: "set nr \<subseteq> {..<length ?ops}"
    and cover: "\<forall>j<length ?ops. j \<in> fst ` set (invoked s) \<or> j \<in> set nr \<or>
          shouldSkipOperation (?ops ! j) (failed s)"
    by (simp_all add: dep_inv_def)
  from b have ib: "fst ` set (invoked s) \<subseteq> {..<length ?ops}" by (simp add: books_def)
  have iv: "invoked st = invoked s" and exs: "executed st = executed s"
    and fl: "failed st = failed s \<union> (\<lambda>i. ID (?ops ! i)) ` set nr"
    and er: "errors st = errors s @ map (\<lambda>i. DependencyConstraint (Description (?ops ! i))) nr"
    by (simp_all add: st mark_unreachable_fields)
  have idc: "ID (?ops ! fst c) = int (fst c)" if "c \<in> set (invoked s)" for c
    using that ib wf by (auto simp: wf_ledger_ID)
  have 1: "Execute (rm\<lparr>operations := map (\<lambda>op. op\<lparr>Critical := g op\<rparr>) ?ops\<rparr>) w = Execute rm w"
    using assms(1) by (rule Execute_ignores_critical)
  have 2: "\<exists>j. (j, None) \<in> set pre \<and> d = int j"
    if sp: "invoked st = pre @ c # post" and d: "d \<in> set (DependsOn (?ops ! fst c))" for pre c post d
  proof -
    from sp iv have "invoked s = pre @ c # post" by simp
    with ad d obtain j where j: "(j, None) \<in> set pre" "ID (?ops ! j) = d"
      unfolding after_dependencies_def by blast
    from j(1) \<open>invoked s = pre @ c # post\<close> have "(j, None) \<in> set (invoked s)" by simp
    from idc[OF this] j show ?thesis by auto
  qed
  have 3: "x \<notin> fst ` set (invoked st) \<and> int x \<notin> failed st"
    if x: "x < length ?ops" and dep: "int y \<in> set (DependsOn (?ops ! x))"
      and y: "(y, Some e) \<in> set (invoked st)" for x y e
  proof -
    from y iv have "(y, Some e) \<in> set (invoked s)" by simp
    from blocked_by_failed_dependency[OF inv wf this dep]
    have nx: "x \<notin> fst ` set (invoked s)" and sk: "shouldSkipOperation (?ops ! x) (failed s)" by simp_all
    have "int x \<notin> failed s"
    proof
      assume "int x \<in> failed s"
      from failed_is_invoked[OF b wf this] nx show False by force
    qed
    moreover have "int x \<notin> (\<lambda>i. ID (?ops ! i)) ` set nr"
    proof
      assume "int x \<in> (\<lambda>i. ID (?ops ! i)) ` set nr"
      then obtain i where i: "i \<in> set nr" "ID (?ops ! i) = int x" by auto
      with bd wf have "i = x" by (auto simp: wf_ledger_ID)
      with i(1) stuck sk show False by auto
    qed
    ultimately show ?thesis using nx iv fl by simp
  qed
  have f4: "failed st = int ` {j. \<exists>e. (j, Some e) \<in> set (invoked st)} \<union> int ` set nr"
  proof -
    have "{j. \<exists>e. (j, Some e) \<in> set (invoked s)} \<subseteq> {..<length ?ops}" using ib by force
    from wf_ledger_ID_image[OF wf this] wf_ledger_ID_image[OF wf bd] b fl iv
    show ?thesis by (simp add: books_def)
  qed
  have e4: "errors st = List.map_filter (op_error ?ops) (invoked st) @
                   map (\<lambda>i. DependencyConstraint (Description (?ops ! i))) nr"
    using b er iv by (simp add: books_def)
  have n4: "\<exists>d\<in>set (DependsOn (?ops ! i)). \<forall>c\<in>set (invoked st). d \<noteq> int (fst c)" if "i \<in> set nr" for i
  proof -
    from that stuck have "\<not> canExecute (?ops ! i) s" by simp
    then obtain d where d: "d \<in> set (DependsOn (?ops ! i))" "d \<notin> executed s" "d \<notin> failed s"
      by (auto simp: canExecute_def list_all_iff)
    have "d \<noteq> int (fst c)" if c: "c \<in> set (invoked s)" for c
    proof
      assume "d = int (fst c)"
      with idc[OF c] have e: "ID (?ops ! fst c) = d" by simp
      show False
      proof (cases "snd c")
        case None
        with c have "(fst c, None) \<in> set (invoked s)" by (metis prod.collapse)
        with b e d(2) show False by (auto simp: books_def)
      next
        case (Some er)
        with c have "(fst c, Some er) \<in> set (invoked s)" by (metis prod.collapse)
        with b e d(3) show False by (auto simp: books_def)
      qed
    qed
    then have "\<forall>c\<in>set (invoked st). d \<noteq> int (fst c)" using iv by simp
    with d(1) show ?thesis by (rule rev_bexI)
  qed
  have c4: "i \<in> fst ` set (invoked st) \<or> i \<in> set nr \<or>
          (\<exists>y e. (y, Some e) \<in> set (invoked st) \<and> int y \<in> set (DependsOn (?ops ! i)))"
    if "i < length ?ops" for i
  proof -
    from cover that consider "i \<in> fst ` set (invoked s)" | "i \<in> set nr"
      | "shouldSkipOperation (?ops ! i) (failed s)" by blast
    then show ?thesis
    proof cases
      case 3
      then obtain d where d: "d \<in> set (DependsOn (?ops ! i))" "d \<in> failed s"
        by (auto simp: shouldSkipOperation_def list_ex_iff)
      from failed_is_invoked[OF b wf d(2)] d(1) iv show ?thesis by auto
    qed (simp_all add: iv)
  qed
  have 4: "\<exists>nr. distinct (map fst (invoked st)) \<and> distinct nr \<and> set nr \<subseteq> {..<length ?ops} \<and>
       set nr \<inter> fst ` set (invoked st) = {} \<and>
       failed st = int ` {j. \<exists>e. (j, Some e) \<in> set (invoked st)} \<union> int ` set nr \<and>
       errors st = List.map_filter (op_error ?ops) (invoked st) @
                   map (\<lambda>i. DependencyConstraint (Description (?ops ! i))) nr \<and>
       (\<forall>i\<in>set nr. \<exists>d\<in>set (DependsOn (?ops ! i)). \<forall>c\<in>set (invoked st). d \<noteq> int (fst c)) \<and>
       (\<forall>i<length ?ops.
          i \<in> fst ` set (invoked st) \<or> i \<in> set nr \<or>
          (\<exists>y e. (y, Some e) \<in> set (invoked st) \<and> int y \<in> set (DependsOn (?ops ! i))))"
    using d1 d2 bd dj f4 e4 n4 c4 iv by (intro exI[of _ nr]) simp
  have 5: "dependency_loop ?ops remaining s0 = mark_unreachable ?ops nr0 s1"
    if "remaining \<noteq> []" "nr0 \<noteq> []" "run_pass ?ops remaining s0 False [] = (s1, False, nr0)"
    for remaining s0 s1 nr0
    using that by (subst dependency_loop.simps) simp
  from 2 have q2: "\<forall>pre c post. invoked st = pre @ c # post \<longrightarrow>
       (\<forall>d\<in>set (DependsOn (?ops ! fst c)). \<exists>j. (j, None) \<in> set pre \<and> d = int j)"
    by blast
  from 3 have q3: "\<forall>x y e. x < length ?ops \<and> int y \<in> set (DependsOn (?ops ! x)) \<and>
        (y, Some e) \<in> set (invoked st) \<longrightarrow>
          x \<notin> fst ` set (invoked st) \<and> int x \<notin> failed st"
    by blast
  from 5 have q5: "\<forall>remaining s s1 nr. remaining \<noteq> [] \<and> nr \<noteq> [] \<and>
        run_pass ?ops remaining s False [] = (s1, False, nr) \<longrightarrow>
          dependency_loop ?ops remaining s = mark_unreachable ?ops nr s1"
    by blast
  show ?thesis by (rule conjI[OF 1 conjI[OF q2 conjI[OF q3 conjI[OF 4 q5]]]])
qed


theorem dependency_mode_witness:
  "Execute (ledger_chain\<lparr>operations := map (\<lambda>op. op\<lparr>Critical := \<not> Critical op\<rparr>) (operations ledger_chain)\<rparr>)
     (mock_world (Some boom) None) = Execute ledger_chain (mock_world (Some boom) None) \<and>
   1 \<notin> fst ` set (invoked (snd (snd (Execute ledger_chain (mock_world (Some boom) None))))) \<and>
   1 \<notin> failed (snd (snd (Execute ledger_chain (mock_world (Some boom) None))))"
proof -
  let ?w = "mock_world (Some boom) None"
  let ?st = "snd (snd (Execute ledger_chain ?w))"
  have h1: "\<not> failFast ledger_chain" by (simp add: ledger_chain_def api_defs)
  have h2: "wf_ledger (operations ledger_chain)" by (simp add: ledger_chain_def api_defs wf_ledger_def)
  have h3: "Execute ledger_chain ?w = (fst (Execute ledger_chain ?w), fst (snd (Execute ledger_chain ?w)), ?st)"
    by simp
  have h4: "1 < length (operations ledger_chain) \<and>
            int 0 \<in> set (DependsOn (operations ledger_chain ! 1)) \<and>
            (0, Some boom) \<in> set (invoked ?st)"
    by (simp add: ledger_chain_def api_defs exec_defs Let_def dependency_loop.simps)
  note t = dependency_mode[OF h1 h2 h3, of "\<lambda>op. \<not> Critical op"]
  from t have a: "Execute (ledger_chain\<lparr>operations := map (\<lambda>op. op\<lparr>Critical := \<not> Critical op\<rparr>) (operations ledger_chain)\<rparr>) ?w
                    = Execute ledger_chain ?w"
    by (rule conjunct1)
  from t have "\<forall>x y e. x < length (operations ledger_chain) \<and>
        int y \<in> set (DependsOn (operations ledger_chain ! x)) \<and> (y, Some e) \<in> set (invoked ?st) \<longrightarrow>
          x \<notin> fst ` set (invoked ?st) \<and> int x \<notin> failed ?st"
    by (rule conjunct1[OF conjunct2[OF conjunct2]])
  with h4 have "1 \<notin> fst ` set (invoked ?st) \<and> int 1 \<notin> failed ?st" by blast
  with a show ?thesis by simp
qed

section \<open>Lock manager\<close>

subsection \<open>SHA-256, as \<open>crypto/sha256\<close> computes it\<close>

type_synonym w32 = "32 word"

definition rotr :: "nat \<Rightarrow> w32 \<Rightarrow> w32" where
  "rotr n x = (drop_bit n x) OR (push_bit (32 - n) x)"

text \<open>The round constants and the initial hash value of SHA-256 (FIPS 180-4), in decimal.\<close>

definition sha_K :: "w32 list" where
  "sha_K = [
    1116352408, 1899447441, 3049323471, 3921009573, 961987163, 1508970993, 2453635748, 2870763221,
    3624381080, 310598401, 607225278, 1426881987, 1925078388, 2162078206, 2614888103, 3248222580,
    3835390401, 4022224774, 264347078, 604807628, 770255983, 1249150122, 1555081692, 1996064986,
    2554220882, 2821834349, 2952996808, 3210313671, 3336571891, 3584528711, 113926993, 338241895,
    666307205, 773529912, 1294757372, 1396182291, 1695183700, 1986661051, 2177026350, 2456956037,
    2730485921, 2820302411, 3259730800, 3345764771, 3516065817, 3600352804, 4094571909, 275423344,
    430227734, 506948616, 659060556, 883997877, 958139571, 1322822218, 1537002063, 1747873779,
    1955562222, 2024104815, 2227730452, 2361852424, 2428436474, 2756734187, 3204031479, 3329325298]"

definition sha_H0 :: "w32 list" where
  "sha_H0 = [1779033703, 3144134277, 1013904242, 2773480762,
             1359893119, 2600822924, 528734635, 1541459225]"

text \<open>
  The padding of \<open>crypto/sha256\<close>: \<open>t\<close> bytes, the first \<open>0x80\<close> and the others zero,
  that bring the length to 56 modulo 64, then the length in bits as a big-endian 64-bit word.
\<close>

definition sha_pad :: "8 word list \<Rightarrow> 8 word list" where
  "sha_pad m =
     (let l = length m;
          t = (if l mod 64 < 56 then 56 - l mod 64 else 64 + 56 - l mod 64)
      in m @ [0x80] @ replicate (t - 1) 0 @
         map (\<lambda>i. ucast (drop_bit (8 * (7 - i)) (of_nat (8 * l) :: 64 word))) [0..<8])"

fun be32 :: "8 word list \<Rightarrow> w32 list" where
  "be32 (a # b # c # d # r) =
     (push_bit 24 (ucast a) OR push_bit 16 (ucast b) OR push_bit 8 (ucast c) OR ucast d) # be32 r"
| "be32 _ = []"

fun chunks :: "nat \<Rightarrow> 'a list \<Rightarrow> 'a list list" where
  "chunks n [] = []"
| "chunks n xs = (if n = 0 then [xs] else take n xs # chunks n (drop n xs))"

definition ssig0 :: "w32 \<Rightarrow> w32" where "ssig0 x = rotr 7 x XOR rotr 18 x XOR drop_bit 3 x"
definition ssig1 :: "w32 \<Rightarrow> w32" where "ssig1 x = rotr 17 x XOR rotr 19 x XOR drop_bit 10 x"
definition bsig0 :: "w32 \<Rightarrow> w32" where "bsig0 x = rotr 2 x XOR rotr 13 x XOR rotr 22 x"
definition bsig1 :: "w32 \<Rightarrow> w32" where "bsig1 x = rotr 6 x XOR rotr 11 x XOR rotr 25 x"

text \<open>The message schedule, newest word first while it is built.\<close>

fun sha_schedule :: "nat \<Rightarrow> w32 list \<Rightarrow> w32 list" where
  "sha_schedule 0 ws = rev ws"
| "sha_schedule (Suc n) ws =
     sha_schedule n ((ssig1 (ws ! 1) + ws ! 6 + ssig0 (ws ! 14) + ws ! 15) # ws)"

fun sha_rounds :: "w32 list \<Rightarrow> w32 list \<Rightarrow> w32 list \<Rightarrow> w32 list" where
  "sha_rounds (k # ks) (w # ws) [a, b, c, d, e, f, g, h] =
     (let t1 = h + bsig1 e + ((e AND f) XOR (NOT e AND g)) + k + w;
          t2 = bsig0 a + ((a AND b) XOR (a AND c) XOR (b AND c))
      in sha_rounds ks ws [t1 + t2, a, b, c, d + t1, e, f, g])"
| "sha_rounds _ _ s = s"

definition sha_compress :: "w32 list \<Rightarrow> 8 word list \<Rightarrow> w32 list" where
  "sha_compress hs block = map2 (+) hs (sha_rounds sha_K (sha_schedule 48 (rev (be32 block))) hs)"

definition sha256 :: "8 word list \<Rightarrow> 8 word list" where
  "sha256 m =
     concat (map (\<lambda>w. map (\<lambda>i. ucast (drop_bit (8 * (3 - i)) w)) [0..<4])
               (foldl sha_compress sha_H0 (chunks 64 (sha_pad m))))"

text \<open>\<open>[]byte(s)\<close> and \<open>fmt.Sprintf("%x", bs)\<close>.\<close>

definition bytes :: "string \<Rightarrow> 8 word list" where
  "bytes s = map (\<lambda>c. of_nat (of_char c)) s"

definition hexdigit :: "nat \<Rightarrow> char" where
  "hexdigit n = ''0123456789abcdef'' ! n"

definition hex :: "8 word list \<Rightarrow> string" where
  "hex bs = concat (map (\<lambda>b. [hexdigit (unat b div 16), hexdigit (unat b mod 16)]) bs)"

subsection \<open>The lock key\<close>

definition generateLockKey :: "string \<Rightarrow> string \<Rightarrow> string" where
  "generateLockKey operation targetPath =
     (let hash = sha256 (bytes targetPath);
          pathHash = hex (take 8 hash)
      in ''wtree-'' @ operation @ ''-'' @ pathHash)"

subsection \<open>Parsing the lock file\<close>

text \<open>\<open>strings.Split(s, sep)\<close> for a one-byte separator: the pieces between the separators,
  one more than there are separators.\<close>

fun split_on :: "char \<Rightarrow> string \<Rightarrow> string list" where
  "split_on sep [] = [[]]"
| "split_on sep (c # cs) =
     (if c = sep then [] # split_on sep cs
      else (case split_on sep cs of [] \<Rightarrow> [[c]] | l # ls \<Rightarrow> (c # l) # ls))"

definition newline :: char where
  "newline = CHR 0x0A"

text \<open>
  \<open>strconv.Atoi\<close> on a 64-bit platform: an optional sign, then at least one decimal digit
  and nothing else; a value outside the range of \<open>int\<close> is an error.
\<close>

definition is_digit :: "char \<Rightarrow> bool" where
  "is_digit c = (c \<in> set ''0123456789'')"

definition digits_value :: "string \<Rightarrow> nat" where
  "digits_value ds = foldl (\<lambda>a c. 10 * a + (of_char c - 48)) 0 ds"

definition Atoi :: "string \<Rightarrow> int option" where
  "Atoi s =
     (let neg = (case s of c # r \<Rightarrow> c = CHR ''-'' | [] \<Rightarrow> False);
          ds = (case s of c # r \<Rightarrow> if c = CHR ''-'' \<or> c = CHR ''+'' then r else s | [] \<Rightarrow> [])
      in if ds = [] \<or> \<not> list_all is_digit ds then None
         else
           let v = int (digits_value ds); n = (if neg then - v else v)
           in if n < - (2 ^ 63) \<or> 2 ^ 63 - 1 < n then None else Some n)"

text \<open>The loop of \<open>extractPIDFromLockInfo\<close> over the lines.\<close>

fun first_pid :: "string list \<Rightarrow> int" where
  "first_pid [] = 0"
| "first_pid (line # lines) =
     (if length line > 4 \<and> take 4 line = ''pid='' then
        (case Atoi (drop 4 line) of Some pid \<Rightarrow> pid | None \<Rightarrow> first_pid lines)
      else first_pid lines)"

definition extractPIDFromLockInfo :: "string \<Rightarrow> int" where
  "extractPIDFromLockInfo lockInfo = first_pid (split_on newline lockInfo)"

subsection \<open>The operating system, as the lock manager sees it\<close>

text \<open>
  The lock files (path to content), the clock in nanoseconds, the process table probes and
  the ways the calls can fail: a path on which exclusive creation, reading or removal is
  refused, writes that fail, closes that fail. One process runs; nothing else touches the
  files between its calls.
\<close>

record lock_world =
  files :: "string \<rightharpoonup> string"
  now :: int
  my_pid :: int
  rfc3339 :: "int \<Rightarrow> string"
  create_denied :: "string set"
  read_denied :: "string set"
  remove_denied :: "string set"
  write_fails :: bool
  close_fails :: bool
  goos_windows :: bool
  find_process :: "int \<Rightarrow> bool"
  signal0 :: "int \<Rightarrow> error option"
  wait_process :: "int \<Rightarrow> error + bool"

text \<open>\<open>os.OpenFile(path, O_CREATE|O_EXCL|O_WRONLY, 0600)\<close>\<close>

definition os_OpenFile_excl :: "string \<Rightarrow> lock_world \<Rightarrow> error option \<times> lock_world" where
  "os_OpenFile_excl path w =
     (if path \<in> dom (files w) then (Some ErrExist, w)
      else if path \<in> create_denied w then (Some (ErrOther ''open''), w)
      else (None, w\<lparr>files := (files w)(path \<mapsto> [])\<rparr>))"

definition file_WriteString :: "string \<Rightarrow> string \<Rightarrow> lock_world \<Rightarrow> error option \<times> lock_world" where
  "file_WriteString path s w =
     (if write_fails w then (Some (ErrOther ''write''), w)
      else (case files w path of
              None \<Rightarrow> (None, w)
            | Some old \<Rightarrow> (None, w\<lparr>files := (files w)(path \<mapsto> old @ s)\<rparr>)))"

definition file_Close :: "lock_world \<Rightarrow> error option" where
  "file_Close w = (if close_fails w then Some (ErrOther ''close'') else None)"

definition os_Remove :: "string \<Rightarrow> lock_world \<Rightarrow> error option \<times> lock_world" where
  "os_Remove path w =
     (if path \<notin> dom (files w) then (Some ErrNotExist, w)
      else if path \<in> remove_denied w then (Some (ErrOther ''remove''), w)
      else (None, w\<lparr>files := (files w)(path := None)\<rparr>))"

definition os_ReadFile :: "string \<Rightarrow> lock_world \<Rightarrow> error + string" where
  "os_ReadFile path w =
     (case files w path of
        None \<Rightarrow> Inl ErrNotExist
      | Some content \<Rightarrow> if path \<in> read_denied w then Inl (ErrOther ''read'') else Inr content)"

text \<open>\<open>time.Sleep(d)\<close>: returns at once when \<open>d\<close> is not positive.\<close>

definition time_Sleep :: "int \<Rightarrow> lock_world \<Rightarrow> lock_world" where
  "time_Sleep d w = w\<lparr>now := now w + max d 0\<rparr>"

definition processExistsUnix :: "lock_world \<Rightarrow> int \<Rightarrow> bool" where
  "processExistsUnix w p = (if \<not> find_process w p then False else signal0 w p = None)"

definition processExistsWindows :: "lock_world \<Rightarrow> int \<Rightarrow> bool" where
  "processExistsWindows w p =
     (if \<not> find_process w p then False
      else (case wait_process w p of Inl err \<Rightarrow> True | Inr exited \<Rightarrow> \<not> exited))"

subsection \<open>OperationLock\<close>

record OperationLock =
  lockPath :: string
  lockFile :: "string option"
  pid :: int
  operation :: string
  acquired :: bool
  timeout :: int
  retryDelay :: int

text \<open>
  \<open>filepath.Join\<close> where the separator is the slash: the non-empty leading element and
  what follows it are joined with a slash and the result is cleaned by \<open>filepath.Clean\<close>.
  \<open>Clean\<close> reads the path from left to right and writes into a buffer: a separator and
  a \<open>.\<close> element are passed over; a \<open>..\<close> element removes the last element written,
  back to the preceding separator, as long as the buffer is longer than \<open>dotdot\<close>, which
  marks the leading slash or a leading run of \<open>..\<close> elements; where nothing can be removed
  it is dropped in a rooted path and written in a relative one; any other element is
  written after a separator. An empty result is \<open>.\<close>. On Windows the separator and the
  cleaning are others and the lock paths are other strings; the theorems on \<open>AcquireLock\<close>
  below use of the joined path only that it is determined by the directory and the key.
\<close>

fun backtrack :: "string \<Rightarrow> nat \<Rightarrow> nat \<Rightarrow> nat" where
  "backtrack out dotdot w =
     (if w > dotdot \<and> out ! w \<noteq> CHR ''/'' then backtrack out dotdot (w - 1) else w)"

declare backtrack.simps [simp del]

function clean_loop :: "bool \<Rightarrow> string \<Rightarrow> string \<Rightarrow> nat \<Rightarrow> string" where
  "clean_loop rooted [] out dotdot = out"
| "clean_loop rooted (c # cs) out dotdot =
     (if c = CHR ''/'' then clean_loop rooted cs out dotdot
      else if c = CHR ''.'' \<and> (cs = [] \<or> hd cs = CHR ''/'') then clean_loop rooted cs out dotdot
      else if c = CHR ''.'' \<and> hd cs = CHR ''.'' \<and> (tl cs = [] \<or> hd (tl cs) = CHR ''/'') then
        (if length out > dotdot then
           clean_loop rooted (tl cs) (take (backtrack out dotdot (length out - 1)) out) dotdot
         else if \<not> rooted then
           (let out1 = (if length out > 0 then out @ ''/'' else out) @ ''..''
            in clean_loop rooted (tl cs) out1 (length out1))
         else clean_loop rooted (tl cs) out dotdot)
      else
        (let out1 = (if rooted \<and> length out \<noteq> 1 \<or> \<not> rooted \<and> length out \<noteq> 0
                     then out @ ''/'' else out)
         in clean_loop rooted (dropWhile (\<lambda>x. x \<noteq> CHR ''/'') cs)
              (out1 @ c # takeWhile (\<lambda>x. x \<noteq> CHR ''/'') cs) dotdot))"
  by pat_completeness auto
termination
  by (relation "measure (\<lambda>(rooted, path, out, dotdot). length path)")
     (auto simp: length_dropWhile_le le_imp_less_Suc)

definition filepath_Clean :: "string \<Rightarrow> string" where
  "filepath_Clean path =
     (if path = [] then ''.''
      else
        (let rooted = (hd path = CHR ''/'');
             out = (if rooted then clean_loop True (tl path) ''/'' 1
                    else clean_loop False path [] 0)
         in if out = [] then ''.'' else out))"

definition filepath_Join :: "string \<Rightarrow> string \<Rightarrow> string" where
  "filepath_Join dir name =
     (if dir \<noteq> [] then filepath_Clean (dir @ ''/'' @ name)
      else if name \<noteq> [] then filepath_Clean name
      else [])"

definition newOperationLock :: "string \<Rightarrow> string \<Rightarrow> string \<Rightarrow> int \<Rightarrow> lock_world \<Rightarrow> OperationLock" where
  "newOperationLock lockDir lockKey opn tmo w =
     \<lparr> lockPath = filepath_Join lockDir (lockKey @ ''.lock''), lockFile = None, pid = my_pid w,
       operation = opn, acquired = False, timeout = tmo, retryDelay = 100 * 1000000 \<rparr>"

definition readLockInfo :: "OperationLock \<Rightarrow> lock_world \<Rightarrow> error + string" where
  "readLockInfo ol w = os_ReadFile (lockPath ol) w"

definition isLockStale :: "OperationLock \<Rightarrow> lock_world \<Rightarrow> bool" where
  "isLockStale ol w =
     (case readLockInfo ol w of
        Inl err \<Rightarrow> True
      | Inr lockInfo \<Rightarrow>
          (let p = extractPIDFromLockInfo lockInfo in
           if p > 0 then
             (if goos_windows w then \<not> processExistsWindows w p else \<not> processExistsUnix w p)
           else True))"

definition cleanupStaleLock :: "OperationLock \<Rightarrow> lock_world \<Rightarrow> error option \<times> lock_world" where
  "cleanupStaleLock ol w = os_Remove (lockPath ol) w"

definition cleanup :: "OperationLock \<Rightarrow> lock_world \<Rightarrow> error option \<times> OperationLock \<times> lock_world" where
  "cleanup ol w =
     (let errs1 = (case lockFile ol of
                     Some f \<Rightarrow> (case file_Close w of
                                  Some err \<Rightarrow> [Wrapped ''failed to close lock file'' err]
                                | None \<Rightarrow> [])
                   | None \<Rightarrow> []);
          ol1 = ol\<lparr>lockFile := None\<rparr>
      in case os_Remove (lockPath ol) w of
           (r, w1) \<Rightarrow>
             (let errs2 = (case r of
                             Some err \<Rightarrow> if err \<noteq> ErrNotExist
                                         then errs1 @ [Wrapped ''failed to remove lock file'' err]
                                         else errs1
                           | None \<Rightarrow> errs1)
              in (if errs2 \<noteq> [] then Some (ErrorList ''lock cleanup errors'' errs2) else None,
                  ol1, w1)))"

definition Release :: "OperationLock \<Rightarrow> lock_world \<Rightarrow> error option \<times> OperationLock \<times> lock_world" where
  "Release ol w =
     (if \<not> acquired ol then (None, ol, w)
      else (case cleanup ol w of (err, ol1, w1) \<Rightarrow> (err, ol1\<lparr>acquired := False\<rparr>, w1)))"

definition lock_info :: "OperationLock \<Rightarrow> lock_world \<Rightarrow> string" where
  "lock_info ol w =
     ''pid='' @ show_int (pid ol) @ [newline] @ ''operation='' @ operation ol @ [newline] @
     ''time='' @ rfc3339 w (now w) @ [newline]"

text \<open>
  The retry loop of \<open>acquire\<close>. It ends when the file is created, when creation fails
  for another reason than "exists", or when the timeout has elapsed; where none of these
  ever happens the loop does not return (\<open>None\<close>).
\<close>

partial_function (option) acquire_loop ::
  "OperationLock \<Rightarrow> int \<Rightarrow> lock_world \<Rightarrow> (error option \<times> OperationLock \<times> lock_world) option" where
  "acquire_loop ol startTime w =
     (case os_OpenFile_excl (lockPath ol) w of
        (None, w1) \<Rightarrow>
          (let ol1 = ol\<lparr>lockFile := Some (lockPath ol), acquired := True\<rparr> in
           case file_WriteString (lockPath ol) (lock_info ol w1) w1 of
             (Some writeErr, w2) \<Rightarrow>
               Some (Some (Wrapped ''failed to write lock info'' writeErr), ol1,
                     snd (os_Remove (lockPath ol) w2))
           | (None, w2) \<Rightarrow> Some (None, ol1, w2))
      | (Some err, w1) \<Rightarrow>
          if err \<noteq> ErrExist then Some (Some (Wrapped ''failed to create lock file'' err), ol, w1)
          else if now w1 - startTime \<ge> timeout ol then
            (case readLockInfo ol w1 of
               Inr lockInfo \<Rightarrow>
                 Some (Some (ValidationError ''acquire-lock-timeout''
                               (''timeout waiting for lock (held by '' @ lockInfo @ '')'') (Some err)),
                       ol, w1)
             | Inl readErr \<Rightarrow>
                 Some (Some (ValidationError ''acquire-lock-timeout''
                               ''timeout waiting for lock'' (Some err)),
                       ol, w1))
          else if isLockStale ol w1 then
            (case cleanupStaleLock ol w1 of
               (None, w2) \<Rightarrow> acquire_loop ol startTime w2
             | (Some cleanupErr, w2) \<Rightarrow> acquire_loop ol startTime (time_Sleep (retryDelay ol) w2))
          else acquire_loop ol startTime (time_Sleep (retryDelay ol) w1))"

definition acquire :: "OperationLock \<Rightarrow> lock_world \<Rightarrow> (error option \<times> OperationLock \<times> lock_world) option" where
  "acquire ol w =
     (if acquired ol then Some (Some (ValidationError ''acquire-lock'' ''lock already acquired'' None), ol, w)
      else acquire_loop ol (now w) w)"

subsection \<open>LockManager\<close>

text \<open>
  The manager's table maps a key to a pointer to an \<open>OperationLock\<close>; the caller holds the
  same pointer as its handle. Pointers are addresses into a heap of lock objects; a fresh
  object gets the next free address. Go has no dangling pointers: every address in the table
  or in a caller's hand is in the heap, and the branches for an address outside it are never
  taken.
\<close>

record LockManager =
  lockDir :: string
  locks :: "string \<rightharpoonup> nat"

record lock_state =
  heap :: "nat \<rightharpoonup> OperationLock"
  next_addr :: nat
  os_world :: lock_world

definition already_held :: "LockManager \<Rightarrow> lock_state \<Rightarrow> string \<Rightarrow> bool" where
  "already_held lm s lockKey =
     (case locks lm lockKey of
        None \<Rightarrow> False
      | Some a \<Rightarrow> (case heap s a of None \<Rightarrow> False | Some existingLock \<Rightarrow> acquired existingLock))"

definition AcquireLock ::
  "LockManager \<Rightarrow> string \<Rightarrow> string \<Rightarrow> int \<Rightarrow> lock_state
     \<Rightarrow> ((error + nat) \<times> LockManager \<times> lock_state) option" where
  "AcquireLock lm lockType targetPath tmo s =
     (let lockKey = generateLockKey lockType targetPath in
      if already_held lm s lockKey then
        Some (Inl (ValidationError ''acquire-lock''
                     (''lock already acquired for '' @ lockType @ '' on '' @ targetPath) None),
              lm, s)
      else
        (let lock = newOperationLock (lockDir lm) lockKey lockType tmo (os_world s);
             a = next_addr s
         in case acquire lock (os_world s) of
              None \<Rightarrow> None
            | Some (Some err, lock1, w1) \<Rightarrow>
                (case cleanup lock1 w1 of
                   (ignored, lock2, w2) \<Rightarrow>
                     Some (Inl (Wrapped ''failed to acquire lock'' err), lm,
                           s\<lparr>heap := (heap s)(a \<mapsto> lock2), next_addr := Suc a, os_world := w2\<rparr>))
            | Some (None, lock1, w1) \<Rightarrow>
                Some (Inr a, lm\<lparr>locks := (locks lm)(lockKey \<mapsto> a)\<rparr>,
                      s\<lparr>heap := (heap s)(a \<mapsto> lock1), next_addr := Suc a, os_world := w1\<rparr>)))"

text \<open>
  \<open>ReleaseLock\<close>. The range loop deletes the first entry that holds the pointer and
  stops; a pointer is stored under one key only (each \<open>AcquireLock\<close> stores a fresh one),
  so this removes every entry that holds it. The handle \<open>None\<close> is \<open>nil\<close>.
\<close>

definition ReleaseLock ::
  "LockManager \<Rightarrow> nat option \<Rightarrow> lock_state \<Rightarrow> error option \<times> LockManager \<times> lock_state" where
  "ReleaseLock lm lock s =
     (case lock of
        None \<Rightarrow> (None, lm, s)
      | Some a \<Rightarrow>
          (let lm1 = lm\<lparr>locks := (\<lambda>key. if locks lm key = Some a then None else locks lm key)\<rparr> in
           case heap s a of
             None \<Rightarrow> (None, lm1, s)
           | Some ol \<Rightarrow>
               (case Release ol (os_world s) of
                  (err, ol1, w1) \<Rightarrow> (err, lm1, s\<lparr>heap := (heap s)(a \<mapsto> ol1), os_world := w1\<rparr>))))"

section \<open>A lock without a valid PID line is stale\<close>

text \<open>A line "parses as \<open>pid=<positive integer>\<close>" when it starts with \<open>pid=\<close> and the rest
  is accepted by \<open>Atoi\<close> with a positive value.\<close>

definition positive_pid_line :: "string \<Rightarrow> bool" where
  "positive_pid_line line =
     (take 4 line = ''pid='' \<and> (case Atoi (drop 4 line) of Some n \<Rightarrow> 0 < n | None \<Rightarrow> False))"

definition parsable_pid_line :: "string \<Rightarrow> bool" where
  "parsable_pid_line line = (take 4 line = ''pid='' \<and> Atoi (drop 4 line) \<noteq> None)"

lemma Atoi_Nil: "Atoi [] = None"
  by (simp add: Atoi_def)

lemma first_pid_not_positive:
  "\<forall>line\<in>set lines. \<not> positive_pid_line line \<Longrightarrow> first_pid lines \<le> 0"
  by (induction lines) (auto simp: positive_pid_line_def split: option.splits)

lemma first_pid_zero:
  "\<forall>line\<in>set lines. \<not> parsable_pid_line line \<Longrightarrow> first_pid lines = 0"
  by (induction lines) (auto simp: parsable_pid_line_def split: option.splits)

text \<open>
  C9. When the content of the lock file cannot be read, or contains no line that parses as
  \<open>pid=<positive integer>\<close>, \<open>isLockStale\<close> returns true; and \<open>extractPIDFromLockInfo\<close>
  returns 0 when no line parses as \<open>pid=<integer>\<close> at all.
\<close>

theorem unparsable_pid_is_stale:
  "(\<forall>err. readLockInfo ol w = Inl err \<longrightarrow> isLockStale ol w) \<and>
   (\<forall>lockInfo. readLockInfo ol w = Inr lockInfo \<and>
       (\<forall>line\<in>set (split_on newline lockInfo). \<not> positive_pid_line line) \<longrightarrow> isLockStale ol w) \<and>
   ((\<forall>line\<in>set (split_on newline lockInfo'). \<not> parsable_pid_line line) \<longrightarrow>
       extractPIDFromLockInfo lockInfo' = 0)"
proof (intro conjI allI impI)
  fix err assume "readLockInfo ol w = Inl err"
  then show "isLockStale ol w" by (simp add: isLockStale_def)
next
  fix lockInfo
  assume h: "readLockInfo ol w = Inr lockInfo \<and>
       (\<forall>line\<in>set (split_on newline lockInfo). \<not> positive_pid_line line)"
  then have "extractPIDFromLockInfo lockInfo \<le> 0"
    by (simp add: extractPIDFromLockInfo_def first_pid_not_positive)
  with h show "isLockStale ol w" by (simp add: isLockStale_def Let_def)
next
  assume "\<forall>line\<in>set (split_on newline lockInfo'). \<not> parsable_pid_line line"
  then show "extractPIDFromLockInfo lockInfo' = 0"
    by (simp add: extractPIDFromLockInfo_def first_pid_zero)
qed

text \<open>A world with one process, whose file system works, and a lock in it.\<close>

definition world0 :: "(string \<rightharpoonup> string) \<Rightarrow> lock_world" where
  "world0 fs =
     \<lparr> files = fs, now = 0, my_pid = 4242, rfc3339 = (\<lambda>t. ''2024-01-01T00:00:00Z''),
       create_denied = {}, read_denied = {}, remove_denied = {}, write_fails = False,
       close_fails = False, goos_windows = False,
       find_process = (\<lambda>p. True), signal0 = (\<lambda>p. if p = 4242 then None else Some (ErrOther ''no such process'')),
       wait_process = (\<lambda>p. Inl (ErrOther ''wait'')) \<rparr>"

definition lock0 :: OperationLock where
  "lock0 = newOperationLock ''/tmp/wtree-locks'' ''k'' ''create'' 5000000000 (world0 Map.empty)"

theorem unparsable_pid_is_stale_witness:
  "isLockStale lock0 (world0 [lockPath lock0 \<mapsto> ''pid=abc'' @ [newline] @ ''operation=create'' @ [newline]]) \<and>
   isLockStale lock0 ((world0 [lockPath lock0 \<mapsto> ''pid=4242'' @ [newline]])\<lparr>read_denied := {lockPath lock0}\<rparr>) \<and>
   extractPIDFromLockInfo (''operation=create'' @ [newline]) = 0"
  using unparsable_pid_is_stale[of lock0
          "world0 [lockPath lock0 \<mapsto> ''pid=abc'' @ [newline] @ ''operation=create'' @ [newline]]"
          "''operation=create'' @ [newline]"]
        unparsable_pid_is_stale[of lock0
          "(world0 [lockPath lock0 \<mapsto> ''pid=4242'' @ [newline]])\<lparr>read_denied := {lockPath lock0}\<rparr>"
          "[]"]
  by (simp add: readLockInfo_def os_ReadFile_def world0_def positive_pid_line_def parsable_pid_line_def
        newline_def Atoi_def is_digit_def)

section \<open>The lock key\<close>

text \<open>
  What the specification calls the normalized absolute target path, for slash-separated
  absolute paths: empty and \<open>.\<close> components are dropped and \<open>..\<close> goes up one level.
  The lock manager has no such function; it is defined here to say when two strings spell
  the same path.
\<close>

fun spec_normalize_components :: "string list \<Rightarrow> string list \<Rightarrow> string list" where
  "spec_normalize_components [] acc = rev acc"
| "spec_normalize_components (c # cs) acc =
     (if c = [] \<or> c = ''.'' then spec_normalize_components cs acc
      else if c = ''..'' then spec_normalize_components cs (tl acc)
      else spec_normalize_components cs (c # acc))"

definition spec_normalize_path :: "string \<Rightarrow> string" where
  "spec_normalize_path p =
     (case spec_normalize_components (split_on CHR ''/'' p) [] of
        [] \<Rightarrow> ''/''
      | cs \<Rightarrow> concat (map (\<lambda>c. CHR ''/'' # c) cs))"

text \<open>The padded message is a whole number of 64-byte blocks, and the digest has 32 bytes.\<close>

lemma sha_pad_count:
  fixes l :: nat
  defines "t \<equiv> (if l mod 64 < 56 then 56 - l mod 64 else 64 + 56 - l mod 64)"
  shows "0 < t \<and> (l + t + 8) mod 64 = 0"
  unfolding t_def by presburger

lemma sha_pad_length: "length (sha_pad m) mod 64 = 0"
proof -
  let ?l = "length m"
  let ?t = "(if ?l mod 64 < 56 then 56 - ?l mod 64 else 64 + 56 - ?l mod 64)"
  from sha_pad_count[of ?l] have p: "0 < ?t" and q: "(?l + ?t + 8) mod 64 = 0" by blast+
  have "length (sha_pad m) = ?l + 1 + (?t - 1) + 8"
    by (simp add: sha_pad_def Let_def)
  also from p have "\<dots> = ?l + ?t + 8" by arith
  finally show ?thesis using q by simp
qed

lemma sha_rounds_length: "length s = 8 \<Longrightarrow> length (sha_rounds ks ws s) = 8"
  by (induction ks ws s rule: sha_rounds.induct) (simp_all add: Let_def)

lemma sha_compress_length: "length hs = 8 \<Longrightarrow> length (sha_compress hs block) = 8"
  by (simp add: sha_compress_def sha_rounds_length)

lemma sha_fold_length: "length hs = 8 \<Longrightarrow> length (foldl sha_compress hs bs) = 8"
  by (induction bs arbitrary: hs) (simp_all add: sha_compress_length)

lemma sha256_length: "length (sha256 m) = 32"
proof -
  have "length (foldl sha_compress sha_H0 (chunks 64 (sha_pad m))) = 8"
    by (rule sha_fold_length) (simp add: sha_H0_def)
  then show ?thesis
    by (simp add: sha256_def length_concat o_def sum_list_triv)
qed

lemma hex_length: "length (hex bs) = 2 * length bs"
  by (simp add: hex_def length_concat o_def sum_list_triv)

lemma pathHash_length: "length (hex (take 8 (sha256 m))) = 16"
  by (simp add: hex_length sha256_length)

text \<open>
  The digests that \<open>sha256sum\<close> prints: for \<open>abc\<close>, for the two paths of the scenario
  below, and for paths of 55 and of 56 bytes, the longest message padded into one block and
  the shortest padded into two.
\<close>

lemma sha_abc:
  "hex (sha256 (bytes ''abc'')) = ''ba7816bf8f01cfea414140de5dae2223b00361a396177a9cb410ff61f20015ad''"
  by code_simp

lemma sha_repo_A: "hex (take 8 (sha256 (bytes ''/repo/A''))) = ''85df1fea27272a1b''"
  by code_simp

lemma sha_repo_A_slash: "hex (take 8 (sha256 (bytes ''/repo/A/''))) = ''9661f0aa2b3c8e98''"
  by code_simp

lemma sha_55_bytes:
  "length ''/repo/aaaaaaaaaaaaaaaaaaaaaaaaaaaaaaaaaaaaaaaaaaaaaaaaa'' = 55 \<and>
   hex (take 8 (sha256 (bytes ''/repo/aaaaaaaaaaaaaaaaaaaaaaaaaaaaaaaaaaaaaaaaaaaaaaaaa''))) = ''8e58c036d5612dfd''"
  by code_simp

lemma sha_56_bytes:
  "length ''/repo/aaaaaaaaaaaaaaaaaaaaaaaaaaaaaaaaaaaaaaaaaaaaaaaaaa'' = 56 \<and>
   hex (take 8 (sha256 (bytes ''/repo/aaaaaaaaaaaaaaaaaaaaaaaaaaaaaaaaaaaaaaaaaaaaaaaaaa''))) = ''b7a9279e26bfed03''"
  by code_simp

lemma generateLockKey_56_bytes:
  "generateLockKey ''create'' ''/repo/aaaaaaaaaaaaaaaaaaaaaaaaaaaaaaaaaaaaaaaaaaaaaaaaaa'' =
     ''wtree-create-b7a9279e26bfed03''"
  using sha_56_bytes by (simp add: generateLockKey_def)

text \<open>The lock file of the scenario, in the lock directory of a host that is not Windows.\<close>

lemma lockPath_repo_A:
  "filepath_Join ''/tmp/wtree-locks'' (generateLockKey ''create'' ''/repo/A'' @ ''.lock'') =
     ''/tmp/wtree-locks/wtree-create-85df1fea27272a1b.lock''"
proof -
  have "filepath_Join ''/tmp/wtree-locks'' ''wtree-create-85df1fea27272a1b.lock'' =
          ''/tmp/wtree-locks/wtree-create-85df1fea27272a1b.lock''"
    by code_simp
  then show ?thesis by (simp add: generateLockKey_def sha_repo_A)
qed

text \<open>
  The claim C6 as stated fails on the code: \<open>/repo/A\<close> and \<open>/repo/A/\<close> spell the same path,
  and the keys computed for them differ, because the path is hashed as it is passed.
\<close>

theorem lock_key_counterexample:
  "spec_normalize_path ''/repo/A/'' = spec_normalize_path ''/repo/A'' \<and>
   generateLockKey ''create'' ''/repo/A'' = ''wtree-create-85df1fea27272a1b'' \<and>
   generateLockKey ''create'' ''/repo/A/'' = ''wtree-create-9661f0aa2b3c8e98''"
  by (simp add: generateLockKey_def sha_repo_A sha_repo_A_slash spec_normalize_path_def)

text \<open>
  C6, amended. The lock key is a function of the operation kind and of the target path
  string exactly as it is passed, without normalization: it is \<open>wtree-\<close>, the kind, a
  dash, and the first 8 bytes of the SHA-256 of the path string in hexadecimal. So two
  calls with the same kind and the same path string have the same key, two calls with
  the same kind have the same key exactly when these hash prefixes agree, and two calls
  with different kinds on the same path string have different keys. The hash part has
  16 characters whatever the path, so the key is 23 characters longer than the kind.
\<close>

theorem lock_key:
  "generateLockKey kind path = ''wtree-'' @ kind @ ''-'' @ hex (take 8 (sha256 (bytes path))) \<and>
   (generateLockKey kind path1 = generateLockKey kind path2 \<longleftrightarrow>
      hex (take 8 (sha256 (bytes path1))) = hex (take 8 (sha256 (bytes path2)))) \<and>
   (kind1 \<noteq> kind2 \<longrightarrow> generateLockKey kind1 path \<noteq> generateLockKey kind2 path) \<and>
   length (generateLockKey kind path) = length kind + 23"
  by (simp add: generateLockKey_def pathHash_length)

theorem lock_key_witness:
  "generateLockKey ''create'' ''/test/path'' \<noteq> generateLockKey ''delete'' ''/test/path''"
proof -
  have "''create'' \<noteq> ''delete'' \<longrightarrow>
          generateLockKey ''create'' ''/test/path'' \<noteq> generateLockKey ''delete'' ''/test/path''"
    by (rule conjunct1[OF conjunct2[OF conjunct2[OF lock_key]]])
  then show ?thesis by simp
qed

section \<open>Acquiring a held lock again, and after its release\<close>

definition same_faults :: "lock_world \<Rightarrow> lock_world \<Rightarrow> bool" where
  "same_faults w w' = (create_denied w' = create_denied w \<and> write_fails w' = write_fails w)"

lemma same_faults_refl: "same_faults w w"
  by (simp add: same_faults_def)

lemma same_faults_trans: "same_faults w w1 \<Longrightarrow> same_faults w1 w2 \<Longrightarrow> same_faults w w2"
  by (simp add: same_faults_def)

lemma os_Remove_same_faults: "same_faults w (snd (os_Remove path w))"
  by (simp add: os_Remove_def same_faults_def)

lemma time_Sleep_same_faults: "same_faults w (time_Sleep d w)"
  by (simp add: time_Sleep_def same_faults_def)

definition acquired_ok :: "OperationLock \<Rightarrow> lock_world \<Rightarrow> OperationLock \<Rightarrow> lock_world \<Rightarrow> bool" where
  "acquired_ok ol w ol1 w1 =
     (acquired ol1 \<and> lockPath ol1 = lockPath ol \<and> lockPath ol \<notin> create_denied w \<and>
      \<not> write_fails w \<and> same_faults w w1)"

lemma acquire_loop_first_try:
  assumes "lockPath ol \<notin> dom (files w)" and "lockPath ol \<notin> create_denied w" and "\<not> write_fails w"
  shows "\<exists>ol1 w1. acquire_loop ol startTime w = Some (None, ol1, w1) \<and> acquired ol1 \<and>
           lockPath ol1 = lockPath ol"
  using assms
  by (subst acquire_loop.simps)
     (auto simp: os_OpenFile_excl_def file_WriteString_def Let_def split: option.splits)

lemma acquire_loop_success:
  assumes a: "acquire_loop ol startTime w = Some y"
  shows "fst y = None \<longrightarrow> acquired_ok ol w (fst (snd y)) (snd (snd y))"
proof (rule acquire_loop.raw_induct[where P = "\<lambda>ol startTime w y.
          fst y = None \<longrightarrow> acquired_ok ol w (fst (snd y)) (snd (snd y))", OF _ a])
  fix f :: "OperationLock \<Rightarrow> int \<Rightarrow> lock_world \<Rightarrow> (error option \<times> OperationLock \<times> lock_world) option"
    and ol startTime w y
  assume IH: "\<And>ol startTime w y. f ol startTime w = Some y \<Longrightarrow>
                 fst y = None \<longrightarrow> acquired_ok ol w (fst (snd y)) (snd (snd y))"
  let ?body = "case os_OpenFile_excl (lockPath ol) w of
        (None, w1) \<Rightarrow>
          (let ol1 = ol\<lparr>lockFile := Some (lockPath ol), acquired := True\<rparr> in
           case file_WriteString (lockPath ol) (lock_info ol w1) w1 of
             (Some writeErr, w2) \<Rightarrow>
               Some (Some (Wrapped ''failed to write lock info'' writeErr), ol1,
                     snd (os_Remove (lockPath ol) w2))
           | (None, w2) \<Rightarrow> Some (None, ol1, w2))
      | (Some err, w1) \<Rightarrow>
          if err \<noteq> ErrExist then Some (Some (Wrapped ''failed to create lock file'' err), ol, w1)
          else if now w1 - startTime \<ge> timeout ol then
            (case readLockInfo ol w1 of
               Inr lockInfo \<Rightarrow>
                 Some (Some (ValidationError ''acquire-lock-timeout''
                               (''timeout waiting for lock (held by '' @ lockInfo @ '')'') (Some err)),
                       ol, w1)
             | Inl readErr \<Rightarrow>
                 Some (Some (ValidationError ''acquire-lock-timeout''
                               ''timeout waiting for lock'' (Some err)),
                       ol, w1))
          else if isLockStale ol w1 then
            (case cleanupStaleLock ol w1 of
               (None, w2) \<Rightarrow> f ol startTime w2
             | (Some cleanupErr, w2) \<Rightarrow> f ol startTime (time_Sleep (retryDelay ol) w2))
          else f ol startTime (time_Sleep (retryDelay ol) w1)"
  assume eq: "?body = Some y"
  show "fst y = None \<longrightarrow> acquired_ok ol w (fst (snd y)) (snd (snd y))"
  proof (cases "lockPath ol \<in> dom (files w)")
    case False
    with eq show ?thesis
      by (auto simp: os_OpenFile_excl_def file_WriteString_def Let_def acquired_ok_def same_faults_def
               split: if_splits option.splits)
  next
    case True
    then have o: "os_OpenFile_excl (lockPath ol) w = (Some ErrExist, w)"
      by (simp add: os_OpenFile_excl_def)
    show ?thesis
    proof
      assume none: "fst y = None"
      have "\<exists>w'. f ol startTime w' = Some y \<and> same_faults w w'"
      proof (cases "isLockStale ol w")
        case False
        with eq o none have "f ol startTime (time_Sleep (retryDelay ol) w) = Some y"
          by (auto split: if_splits sum.splits)
        with time_Sleep_same_faults show ?thesis by blast
      next
        case st: True
        obtain r w2 where c: "cleanupStaleLock ol w = (r, w2)" by (cases "cleanupStaleLock ol w")
        then have sf2: "same_faults w w2"
          using os_Remove_same_faults[of w "lockPath ol"] by (simp add: cleanupStaleLock_def)
        show ?thesis
        proof (cases r)
          case None
          with eq o none st c have "f ol startTime w2 = Some y"
            by (auto split: if_splits sum.splits)
          with sf2 show ?thesis by blast
        next
          case (Some e)
          with eq o none st c have "f ol startTime (time_Sleep (retryDelay ol) w2) = Some y"
            by (auto split: if_splits sum.splits)
          with same_faults_trans[OF sf2 time_Sleep_same_faults] show ?thesis by blast
        qed
      qed
      then obtain w' where rec: "f ol startTime w' = Some y" and sf: "same_faults w w'" by blast
      from IH[OF rec] none have "acquired_ok ol w' (fst (snd y)) (snd (snd y))" by simp
      with sf show "acquired_ok ol w (fst (snd y)) (snd (snd y))"
        by (auto simp: acquired_ok_def same_faults_def)
    qed
  qed
qed


lemma cleanup_ok:
  assumes "cleanup ol w = (None, ol1, w1)"
  shows "lockPath ol \<notin> dom (files w1) \<and> same_faults w w1"
  using assms
  by (auto simp: cleanup_def os_Remove_def Let_def same_faults_def split: if_splits option.splits)

lemma AcquireLock_success:
  assumes "AcquireLock lm kind path tmo s = Some (Inr h, lm1, s1)"
  shows "\<exists>lock1. h = next_addr s \<and>
           lm1 = lm\<lparr>locks := (locks lm)(generateLockKey kind path \<mapsto> h)\<rparr> \<and>
           heap s1 = (heap s)(h \<mapsto> lock1) \<and> next_addr s1 = Suc h \<and>
           acquired lock1 \<and>
           lockPath lock1 = filepath_Join (lockDir lm) (generateLockKey kind path @ ''.lock'') \<and>
           lockPath lock1 \<notin> create_denied (os_world s1) \<and> \<not> write_fails (os_world s1)"
proof -
  let ?key = "generateLockKey kind path"
  let ?lock = "newOperationLock (lockDir lm) ?key kind tmo (os_world s)"
  from assms have nh: "\<not> already_held lm s ?key"
    by (auto simp: AcquireLock_def Let_def split: if_splits)
  with assms obtain lock1 w1 where
    acq: "acquire ?lock (os_world s) = Some (None, lock1, w1)" and
    r: "h = next_addr s" "lm1 = lm\<lparr>locks := (locks lm)(?key \<mapsto> h)\<rparr>"
       "s1 = s\<lparr>heap := (heap s)(h \<mapsto> lock1), next_addr := Suc h, os_world := w1\<rparr>"
    by (auto simp: AcquireLock_def Let_def split: option.splits prod.splits)
  have "\<not> acquired ?lock" by (simp add: newOperationLock_def)
  with acq have "acquire_loop ?lock (now (os_world s)) (os_world s) = Some (None, lock1, w1)"
    by (simp add: acquire_def)
  from acquire_loop_success[OF this] have "acquired_ok ?lock (os_world s) lock1 w1" by simp
  then have "acquired lock1" "lockPath lock1 = filepath_Join (lockDir lm) (?key @ ''.lock'')"
    "lockPath lock1 \<notin> create_denied w1" "\<not> write_fails w1"
    by (auto simp: acquired_ok_def same_faults_def newOperationLock_def)
  with r show ?thesis by (intro exI[of _ lock1]) simp
qed

text \<open>The scenario of \<open>TestLockManager_Basic\<close>: a fresh manager on a host that is not
  Windows, an empty lock directory, and a timeout of five seconds.\<close>

definition manager0 :: LockManager where
  "manager0 = \<lparr> lockDir = ''/tmp/wtree-locks'', locks = Map.empty \<rparr>"

definition state0 :: lock_state where
  "state0 = \<lparr> heap = Map.empty, next_addr = 0, os_world = world0 Map.empty \<rparr>"

definition five_seconds :: int where
  "five_seconds = 5 * 1000000000"

lemmas lock_eval = AcquireLock_def already_held_def newOperationLock_def acquire_def
  os_OpenFile_excl_def file_WriteString_def os_Remove_def file_Close_def
  ReleaseLock_def Release_def cleanup_def world0_def manager0_def state0_def Let_def

text \<open>
  The claim C7 as stated fails on the code where \<open>ReleaseLock\<close> cannot remove the lock
  file. On a host that refuses the removal, the first call succeeds and writes the file;
  \<open>ReleaseLock\<close> forgets the lock and reports the cleanup error, and the file stays; the
  third identical call finds the file, reads from it the PID of its own live process, so
  the lock is not stale, retries until the five seconds have elapsed and returns the
  timeout error.
\<close>

definition world_remove_refused :: lock_world where
  "world_remove_refused = (world0 Map.empty)\<lparr>remove_denied := UNIV\<rparr>"

definition state_remove_refused :: lock_state where
  "state_remove_refused = \<lparr> heap = Map.empty, next_addr = 0, os_world = world_remove_refused \<rparr>"

definition refused_acquire :: "(error + nat) \<times> LockManager \<times> lock_state" where
  "refused_acquire =
     the (AcquireLock manager0 ''create'' ''/repo/A'' five_seconds state_remove_refused)"

definition refused_release :: "error option \<times> LockManager \<times> lock_state" where
  "refused_release = ReleaseLock (fst (snd refused_acquire)) (Some 0) (snd (snd refused_acquire))"

lemmas refused_eval = refused_release_def refused_acquire_def world_remove_refused_def
  state_remove_refused_def five_seconds_def isLockStale_def readLockInfo_def os_ReadFile_def
  extractPIDFromLockInfo_def lock_info_def show_int_def show_nat.simps Atoi_def is_digit_def
  digits_value_def processExistsUnix_def time_Sleep_def newline_def cleanupStaleLock_def

theorem double_acquire_rejected_counterexample:
  "AcquireLock manager0 ''create'' ''/repo/A'' five_seconds state_remove_refused =
     Some refused_acquire \<and>
   fst refused_acquire = Inr 0 \<and>
   fst refused_release =
     Some (ErrorList ''lock cleanup errors''
             [Wrapped ''failed to remove lock file'' (ErrOther ''remove'')]) \<and>
   map_option fst (AcquireLock (fst (snd refused_release)) ''create'' ''/repo/A'' five_seconds
                     (snd (snd refused_release))) =
     Some (Inl (Wrapped ''failed to acquire lock''
                  (ValidationError ''acquire-lock-timeout''
                     (''timeout waiting for lock (held by '' @
                        ''pid=4242'' @ [newline] @ ''operation=create'' @ [newline] @
                        ''time=2024-01-01T00:00:00Z'' @ [newline] @ '')'')
                     (Some ErrExist))))"
proof -
  have 1: "AcquireLock manager0 ''create'' ''/repo/A'' five_seconds state_remove_refused =
             Some refused_acquire"
    by (simp add: lock_eval refused_eval acquire_loop.simps)
  have 2: "fst refused_acquire = Inr 0"
    by (simp add: lock_eval refused_eval acquire_loop.simps)
  have 3: "fst refused_release =
     Some (ErrorList ''lock cleanup errors''
             [Wrapped ''failed to remove lock file'' (ErrOther ''remove'')])"
    by (simp add: lock_eval refused_eval acquire_loop.simps)
  have 4: "map_option fst (AcquireLock (fst (snd refused_release)) ''create'' ''/repo/A'' five_seconds
                     (snd (snd refused_release))) =
     Some (Inl (Wrapped ''failed to acquire lock''
                  (ValidationError ''acquire-lock-timeout''
                     (''timeout waiting for lock (held by '' @
                        ''pid=4242'' @ [newline] @ ''operation=create'' @ [newline] @
                        ''time=2024-01-01T00:00:00Z'' @ [newline] @ '')'')
                     (Some ErrExist))))"
    by (simp add: lock_eval refused_eval acquire_loop.simps)
  from 1 2 3 4 show ?thesis by (intro conjI)
qed

text \<open>
  C7, amended. After a successful \<open>AcquireLock\<close>, a second call with the same kind and
  target path on the same manager returns the "lock already acquired" validation error; it
  does so whatever the file system holds and leaves the manager, the lock objects and the
  file system as they are, so it makes no file-system access. After a \<open>ReleaseLock\<close> of
  the held handle that reports no error, the same call succeeds again and returns a new
  handle.
\<close>

theorem double_acquire_rejected:
  assumes "AcquireLock lm kind path tmo s = Some (Inr h, lm1, s1)"
  shows "(\<forall>tmo' w'. AcquireLock lm1 kind path tmo' (s1\<lparr>os_world := w'\<rparr>) =
            Some (Inl (ValidationError ''acquire-lock''
                         (''lock already acquired for '' @ kind @ '' on '' @ path) None),
                  lm1, s1\<lparr>os_world := w'\<rparr>)) \<and>
         (\<forall>lm2 s2 tmo'. ReleaseLock lm1 (Some h) s1 = (None, lm2, s2) \<longrightarrow>
            (\<exists>h' lm3 s3. AcquireLock lm2 kind path tmo' s2 = Some (Inr h', lm3, s3)))"
proof -
  let ?key = "generateLockKey kind path"
  from AcquireLock_success[OF assms] obtain lock1 where
    h: "h = next_addr s" and lm1: "lm1 = lm\<lparr>locks := (locks lm)(?key \<mapsto> h)\<rparr>" and
    hp: "heap s1 = (heap s)(h \<mapsto> lock1)" and acq: "acquired lock1" and
    lp: "lockPath lock1 = filepath_Join (lockDir lm) (?key @ ''.lock'')" and
    cd: "lockPath lock1 \<notin> create_denied (os_world s1)" and wf: "\<not> write_fails (os_world s1)"
    by blast
  have held: "already_held lm1 (s1\<lparr>os_world := w'\<rparr>) ?key" for w'
    using lm1 hp acq by (simp add: already_held_def)
  have 1: "AcquireLock lm1 kind path tmo' (s1\<lparr>os_world := w'\<rparr>) =
            Some (Inl (ValidationError ''acquire-lock''
                         (''lock already acquired for '' @ kind @ '' on '' @ path) None),
                  lm1, s1\<lparr>os_world := w'\<rparr>)" for tmo' w'
    using held[of w'] by (simp add: AcquireLock_def)
  have 2: "\<exists>h' lm3 s3. AcquireLock lm2 kind path tmo' s2 = Some (Inr h', lm3, s3)"
    if rel: "ReleaseLock lm1 (Some h) s1 = (None, lm2, s2)" for lm2 s2 tmo'
  proof -
    obtain e ol1 w1 where c: "cleanup lock1 (os_world s1) = (e, ol1, w1)"
      by (cases "cleanup lock1 (os_world s1)") auto
    with rel hp acq have e: "e = None"
      and lm2: "lm2 = lm1\<lparr>locks := (\<lambda>key. if locks lm1 key = Some h then None else locks lm1 key)\<rparr>"
      and s2: "s2 = s1\<lparr>heap := (heap s1)(h \<mapsto> ol1\<lparr>acquired := False\<rparr>), os_world := w1\<rparr>"
      by (auto simp: ReleaseLock_def Release_def Let_def)
    from c e have gone: "lockPath lock1 \<notin> dom (files w1)" and sf: "same_faults (os_world s1) w1"
      using cleanup_ok by blast+
    from lm2 lm1 have nk: "locks lm2 ?key = None" and ld: "lockDir lm2 = lockDir lm" by simp_all
    then have nh: "\<not> already_held lm2 s2 ?key" by (simp add: already_held_def)
    let ?lock = "newOperationLock (lockDir lm2) ?key kind tmo' (os_world s2)"
    have p: "lockPath ?lock = lockPath lock1" using lp ld by (simp add: newOperationLock_def)
    from s2 have w2: "os_world s2 = w1" by simp
    from gone cd wf sf p w2 have
      "lockPath ?lock \<notin> dom (files (os_world s2))" "lockPath ?lock \<notin> create_denied (os_world s2)"
      "\<not> write_fails (os_world s2)"
      by (simp_all add: same_faults_def)
    from acquire_loop_first_try[OF this, of "now (os_world s2)"] obtain ol3 w3 where
      "acquire_loop ?lock (now (os_world s2)) (os_world s2) = Some (None, ol3, w3)" by blast
    then have "acquire ?lock (os_world s2) = Some (None, ol3, w3)"
      by (simp add: acquire_def newOperationLock_def)
    with nh show ?thesis by (simp add: AcquireLock_def Let_def)
  qed
  from 1 2 show ?thesis by blast
qed


definition first_acquire :: "(error + nat) \<times> LockManager \<times> lock_state" where
  "first_acquire = the (AcquireLock manager0 ''create'' ''/repo/A'' five_seconds state0)"

definition after_release :: "error option \<times> LockManager \<times> lock_state" where
  "after_release = ReleaseLock (fst (snd first_acquire)) (Some 0) (snd (snd first_acquire))"

theorem double_acquire_rejected_witness:
  "fst first_acquire = Inr 0 \<and>
   AcquireLock (fst (snd first_acquire)) ''create'' ''/repo/A'' five_seconds (snd (snd first_acquire)) =
     Some (Inl (ValidationError ''acquire-lock'' ''lock already acquired for create on /repo/A'' None),
           fst (snd first_acquire), snd (snd first_acquire)) \<and>
   fst after_release = None \<and>
   (\<exists>h' lm3 s3. AcquireLock (fst (snd after_release)) ''create'' ''/repo/A'' five_seconds
                   (snd (snd after_release)) = Some (Inr h', lm3, s3))"
proof -
  let ?lm1 = "fst (snd first_acquire)" and ?s1 = "snd (snd first_acquire)"
  have e1: "AcquireLock manager0 ''create'' ''/repo/A'' five_seconds state0 = Some (Inr 0, ?lm1, ?s1)"
    by (simp add: first_acquire_def lock_eval acquire_loop.simps)
  have f: "fst first_acquire = Inr 0"
    by (simp add: first_acquire_def lock_eval acquire_loop.simps)
  have e2: "ReleaseLock ?lm1 (Some 0) ?s1 = (None, fst (snd after_release), snd (snd after_release))"
    by (simp add: after_release_def first_acquire_def lock_eval acquire_loop.simps)
  have r: "fst after_release = None"
    by (simp add: after_release_def first_acquire_def lock_eval acquire_loop.simps)
  note t = double_acquire_rejected[OF e1]
  from t have "AcquireLock ?lm1 ''create'' ''/repo/A'' five_seconds (?s1\<lparr>os_world := os_world ?s1\<rparr>) =
     Some (Inl (ValidationError ''acquire-lock'' (''lock already acquired for '' @ ''create'' @ '' on '' @ ''/repo/A'') None),
           ?lm1, ?s1\<lparr>os_world := os_world ?s1\<rparr>)"
    by blast
  then have second: "AcquireLock ?lm1 ''create'' ''/repo/A'' five_seconds ?s1 =
     Some (Inl (ValidationError ''acquire-lock'' ''lock already acquired for create on /repo/A'' None),
           ?lm1, ?s1)"
    by simp
  from t e2 have third: "\<exists>h' lm3 s3. AcquireLock (fst (snd after_release)) ''create'' ''/repo/A'' five_seconds
                   (snd (snd after_release)) = Some (Inr h', lm3, s3)"
    by blast
  from f second r third show ?thesis by simp
qed

end
